theory Spec2Isabelle
  imports Complex_Main
begin

section \<open>JavaScript numbers\<close>

text \<open>
  The mesh builder of \<^verbatim>\<open>model.js\<close> computes with JavaScript numbers, that is, with
  IEEE 754 double precision values, and keeps its results in \<^verbatim>\<open>Float32Array\<close> buffers.
  A number is a finite real or one of the three special values of the language. The sum,
  difference, product and quotient of two finite numbers is the exact result rounded to
  the nearest double, ties to even, and an infinity beyond the largest double; a store
  into a \<^verbatim>\<open>Float32Array\<close> rounds in the same way to single precision. Negative zero is
  not distinguished from zero. Integer-valued quantities (the grid dimensions, vertex
  numbers, array lengths) are natural numbers or integers: JavaScript computes them
  exactly as long as they stay below \<open>2 ^ 53\<close>, and no array of that length can be created.
\<close>

datatype jsnum = Fin real | PInf | NInf | NaN

definition inf_signed :: "bool \<Rightarrow> jsnum" where
  "inf_signed negative = (if negative then NInf else PInf)"

definition is_inf :: "jsnum \<Rightarrow> bool" where
  "is_inf x \<longleftrightarrow> x = PInf \<or> x = NInf"

subsection \<open>Rounding\<close>

text \<open>The nearest integer, with a tie going to the even neighbour.\<close>

definition round_even :: "real \<Rightarrow> int" where
  "round_even x =
     (let f = \<lfloor>x\<rfloor>
      in if x - of_int f < 1 / 2 then f
         else if 1 / 2 < x - of_int f then f + 1
         else if even f then f else f + 1)"

text \<open>
  Rounding to a binary format with \<open>p\<close> significant bits and exponents from \<open>emin\<close> to
  \<open>emax\<close>. The quantum at \<open>x\<close> is the distance between neighbouring values of the format
  in the binade of \<open>x\<close>, and in the smallest binade when \<open>x\<close> is subnormal. A value is
  rounded to the nearest multiple of its quantum, ties to even, and a result of magnitude
  \<open>2 ^ (emax + 1)\<close> or more is an infinity.
\<close>

definition quantum :: "nat \<Rightarrow> int \<Rightarrow> real \<Rightarrow> real" where
  "quantum p emin x = 2 powr of_int (max emin \<lfloor>log 2 \<bar>x\<bar>\<rfloor> - int p + 1)"

definition nearest :: "nat \<Rightarrow> int \<Rightarrow> real \<Rightarrow> real" where
  "nearest p emin x = of_int (round_even (x / quantum p emin x)) * quantum p emin x"

definition fp_round :: "nat \<Rightarrow> int \<Rightarrow> int \<Rightarrow> real \<Rightarrow> jsnum" where
  "fp_round p emin emax x =
     (if x = 0 then Fin 0
      else if 2 powr of_int (emax + 1) \<le> \<bar>nearest p emin x\<bar> then inf_signed (x < 0)
      else Fin (nearest p emin x))"

text \<open>The finite values of the format: the multiples \<open>n * 2 ^ k\<close> with \<open>\<bar>n\<bar> < 2 ^ p\<close>.\<close>

definition representable :: "nat \<Rightarrow> int \<Rightarrow> int \<Rightarrow> real \<Rightarrow> bool" where
  "representable p emin emax x \<longleftrightarrow>
     (\<exists>n k. x = of_int n * 2 powr of_int k \<and> \<bar>n\<bar> < 2 ^ p \<and> emin - int p + 1 \<le> k) \<and>
     \<bar>x\<bar> < 2 powr of_int (emax + 1)"

definition d64 :: "real \<Rightarrow> jsnum" where
  "d64 x = fp_round 53 (- 1022) 1023 x"

text \<open>The conversion of a store into a \<^verbatim>\<open>Float32Array\<close>.\<close>

fun fround :: "jsnum \<Rightarrow> jsnum" where
  "fround (Fin x) = fp_round 24 (- 126) 127 x"
| "fround x = x"

subsection \<open>Arithmetic\<close>

fun jneg :: "jsnum \<Rightarrow> jsnum" where
  "jneg (Fin x) = Fin (- x)"
| "jneg PInf = NInf"
| "jneg NInf = PInf"
| "jneg NaN = NaN"

fun jadd :: "jsnum \<Rightarrow> jsnum \<Rightarrow> jsnum" where
  "jadd (Fin x) (Fin y) = d64 (x + y)"
| "jadd NaN y = NaN"
| "jadd x NaN = NaN"
| "jadd PInf NInf = NaN"
| "jadd NInf PInf = NaN"
| "jadd PInf y = PInf"
| "jadd x PInf = PInf"
| "jadd NInf y = NInf"
| "jadd x NInf = NInf"

definition jsub :: "jsnum \<Rightarrow> jsnum \<Rightarrow> jsnum" where
  "jsub x y = jadd x (jneg y)"

text \<open>The sign of a finite factor or divisor; zero counts as positive zero.\<close>

fun jmul :: "jsnum \<Rightarrow> jsnum \<Rightarrow> jsnum" where
  "jmul (Fin x) (Fin y) = d64 (x * y)"
| "jmul NaN y = NaN"
| "jmul x NaN = NaN"
| "jmul PInf PInf = PInf"
| "jmul PInf NInf = NInf"
| "jmul NInf PInf = NInf"
| "jmul NInf NInf = PInf"
| "jmul PInf (Fin y) = (if y = 0 then NaN else inf_signed (y < 0))"
| "jmul NInf (Fin y) = (if y = 0 then NaN else inf_signed (0 < y))"
| "jmul (Fin x) PInf = (if x = 0 then NaN else inf_signed (x < 0))"
| "jmul (Fin x) NInf = (if x = 0 then NaN else inf_signed (0 < x))"

fun jdiv :: "jsnum \<Rightarrow> jsnum \<Rightarrow> jsnum" where
  "jdiv (Fin x) (Fin y) =
     (if y = 0 then (if x = 0 then NaN else inf_signed (x < 0)) else d64 (x / y))"
| "jdiv NaN y = NaN"
| "jdiv x NaN = NaN"
| "jdiv (Fin x) PInf = Fin 0"
| "jdiv (Fin x) NInf = Fin 0"
| "jdiv PInf (Fin y) = inf_signed (y < 0)"
| "jdiv NInf (Fin y) = inf_signed (\<not> y < 0)"
| "jdiv PInf y = NaN"
| "jdiv NInf y = NaN"

text \<open>The comparison \<^verbatim>\<open>x > y\<close>; it is false as soon as one side is \<^verbatim>\<open>NaN\<close>.\<close>

fun jgt :: "jsnum \<Rightarrow> jsnum \<Rightarrow> bool" where
  "jgt (Fin x) (Fin y) = (y < x)"
| "jgt NaN y = False"
| "jgt x NaN = False"
| "jgt PInf y = (y \<noteq> PInf)"
| "jgt x NInf = (x \<noteq> NInf)"
| "jgt x y = False"

text \<open>\<^verbatim>\<open>Math.PI\<close> is the double nearest to \<open>\<pi>\<close>.\<close>

definition Math_PI :: real where
  "Math_PI = 884279719003555 / 2 ^ 48"

subsection \<open>The engine\<close>

text \<open>
  What the program takes from the JavaScript engine is a parameter of the model:
  whether the \<open>k\<close>-th typed array allocation of a call, of \<open>n\<close> bytes, succeeds
  (\<open>can_alloc env k n\<close>), and the results of \<^verbatim>\<open>Math.sin\<close>, \<^verbatim>\<open>Math.cos\<close>, \<^verbatim>\<open>Math.exp\<close>
  and \<^verbatim>\<open>Math.hypot\<close> at finite arguments, which the language leaves to the
  implementation. The language fixes their values at zero, at the infinities and at
  \<^verbatim>\<open>NaN\<close>.
\<close>

record engine =
  can_alloc :: "nat \<Rightarrow> nat \<Rightarrow> bool"
  m_sin :: "real \<Rightarrow> real"
  m_cos :: "real \<Rightarrow> real"
  m_exp :: "real \<Rightarrow> jsnum"
  m_hypot :: "real \<Rightarrow> real \<Rightarrow> real \<Rightarrow> jsnum"

fun jexp :: "engine \<Rightarrow> jsnum \<Rightarrow> jsnum" where
  "jexp env (Fin x) = (if x = 0 then Fin 1 else m_exp env x)"
| "jexp env PInf = PInf"
| "jexp env NInf = Fin 0"
| "jexp env NaN = NaN"

fun jsin :: "engine \<Rightarrow> jsnum \<Rightarrow> jsnum" where
  "jsin env (Fin x) = (if x = 0 then Fin 0 else Fin (m_sin env x))"
| "jsin env x = NaN"

fun jcos :: "engine \<Rightarrow> jsnum \<Rightarrow> jsnum" where
  "jcos env (Fin x) = (if x = 0 then Fin 1 else Fin (m_cos env x))"
| "jcos env x = NaN"

text \<open>
  \<^verbatim>\<open>Math.hypot\<close>: an infinite argument wins over a \<^verbatim>\<open>NaN\<close> argument, and three zeros
  give zero.
\<close>

fun hypot :: "engine \<Rightarrow> jsnum \<Rightarrow> jsnum \<Rightarrow> jsnum \<Rightarrow> jsnum" where
  "hypot env (Fin x) (Fin y) (Fin z) =
     (if x = 0 \<and> y = 0 \<and> z = 0 then Fin 0 else m_hypot env x y z)"
| "hypot env x y z = (if is_inf x \<or> is_inf y \<or> is_inf z then PInf else NaN)"

subsection \<open>The conversion \<^verbatim>\<open>x | 0\<close>\<close>

text \<open>
  \<^verbatim>\<open>x | 0\<close> is the language's ToInt32: a value that is not finite gives 0; a finite
  value is truncated towards zero, reduced modulo \<open>2 ^ 32\<close> and read as a signed 32-bit
  integer.
\<close>

definition js_truncate :: "real \<Rightarrow> int" where
  "js_truncate x = (if x < 0 then - \<lfloor>- x\<rfloor> else \<lfloor>x\<rfloor>)"

fun ToInt32 :: "jsnum \<Rightarrow> int" where
  "ToInt32 (Fin x) =
     (let int32bit = js_truncate x mod 2 ^ 32
      in if 2 ^ 31 \<le> int32bit then int32bit - 2 ^ 32 else int32bit)"
| "ToInt32 x = 0"

section \<open>The parameters of a build\<close>

text \<open>
  The parameter object of \<^verbatim>\<open>build\<close>. The five surface coefficients \<^verbatim>\<open>a, n, m, b, phi\<close>
  are finite numbers; the selectors carry the prefix \<open>p_\<close>. The two resolutions are
  arbitrary numbers, since \<^verbatim>\<open>build\<close> itself converts and clamps them.
\<close>

record params =
  p_a :: real
  p_n :: real
  p_m :: real
  p_b :: real
  p_phi :: real
  p_Nr :: jsnum
  p_Nu :: jsnum

text \<open>
  \<^verbatim>\<open>const Nr = Math.max(2, p.Nr | 0); const Nu = Math.max(3, p.Nu | 0);\<close>
  Both are at least 2, so they are kept as natural numbers from here on.
\<close>

definition eff_Nr :: "params \<Rightarrow> nat" where
  "eff_Nr p = nat (max 2 (ToInt32 (p_Nr p)))"

definition eff_Nu :: "params \<Rightarrow> nat" where
  "eff_Nu p = nat (max 3 (ToInt32 (p_Nu p)))"

section \<open>Typed arrays\<close>

text \<open>
  A \<^verbatim>\<open>Float32Array\<close> is a list of numbers; what is stored in it has been rounded by
  \<open>fround\<close>. A read outside the array gives
  \<^verbatim>\<open>undefined\<close>, which arithmetic turns into \<^verbatim>\<open>NaN\<close>; a write outside the array is
  ignored, as \<open>xs[k := v]\<close> does.
\<close>

definition rd :: "jsnum list \<Rightarrow> nat \<Rightarrow> jsnum" where
  "rd xs k = (if k < length xs then xs ! k else NaN)"

text \<open>
  The index buffer is a \<^verbatim>\<open>Uint16Array\<close> or a \<^verbatim>\<open>Uint32Array\<close>. A store converts the
  value to the element type, that is, reduces it modulo \<open>2 ^ 16\<close> or \<open>2 ^ 32\<close>.
\<close>

datatype index_array = Uint16Array "nat list" | Uint32Array "nat list"

fun elems :: "index_array \<Rightarrow> nat list" where
  "elems (Uint16Array xs) = xs"
| "elems (Uint32Array xs) = xs"

fun idx_set :: "index_array \<Rightarrow> nat \<Rightarrow> nat \<Rightarrow> index_array" where
  "idx_set (Uint16Array xs) k v = Uint16Array (xs[k := v mod 2 ^ 16])"
| "idx_set (Uint32Array xs) k v = Uint32Array (xs[k := v mod 2 ^ 32])"

definition idx_get :: "index_array \<Rightarrow> nat \<Rightarrow> nat option" where
  "idx_get idx k = (if k < length (elems idx) then Some (elems idx ! k) else None)"

text \<open>
  Creating a typed array of \<open>len\<close> elements of \<open>elsize\<close> bytes throws a
  \<^verbatim>\<open>RangeError\<close> when the byte length exceeds \<open>2 ^ 53 - 1\<close> or when the engine cannot
  provide the block.
\<close>

datatype js_error = RangeError

definition can_create :: "engine \<Rightarrow> nat \<Rightarrow> nat \<Rightarrow> nat \<Rightarrow> bool" where
  "can_create env k elsize len \<longleftrightarrow>
     len * elsize \<le> 2 ^ 53 - 1 \<and> can_alloc env k (len * elsize)"

section \<open>The model object\<close>

text \<open>
  The fields of \<^verbatim>\<open>Model\<close> that \<^verbatim>\<open>build\<close> and the index type resolution of
  \<^verbatim>\<open>upload\<close> read or write. The four WebGL buffer handles belong to the graphics
  interface and are left out.
\<close>

datatype gl_type = UNSIGNED_SHORT | UNSIGNED_INT

record model =
  positions :: "jsnum list"
  normals :: "jsnum list"
  texcoords :: "jsnum list"
  indices :: "index_array option"
  indexCount :: nat
  indexType :: "gl_type option"

definition new_model :: model where
  "new_model = \<lparr>positions = [], normals = [], texcoords = [], indices = None,
                 indexCount = 0, indexType = None\<rparr>"

section \<open>The surface\<close>

definition surfacePoint :: "engine \<Rightarrow> jsnum \<Rightarrow> jsnum \<Rightarrow> params \<Rightarrow> jsnum \<times> jsnum \<times> jsnum" where
  "surfacePoint env r u p =
     (let w = jdiv (jmul (Fin (p_m p)) (Fin Math_PI)) (Fin (p_b p));
          z = jmul (jmul (Fin (p_a p)) (jexp env (jmul (jneg (Fin (p_n p))) r)))
                   (jsin env (jadd (jmul w r) (Fin (p_phi p))));
          x = jmul r (jcos env u);
          y = jmul r (jsin env u)
      in (x, y, z))"

section \<open>Positions and texture coordinates\<close>

text \<open>The two buffers under construction and their write cursors \<^verbatim>\<open>pk\<close>, \<^verbatim>\<open>uk\<close>.\<close>

record vert_st =
  pos :: "jsnum list"
  uv :: "jsnum list"
  pk :: nat
  uk :: nat

definition rMin :: jsnum where "rMin = Fin 0"
definition rMax :: "params \<Rightarrow> jsnum" where "rMax p = Fin (p_b p)"
definition uMin :: jsnum where "uMin = Fin 0"
definition uMax :: jsnum where "uMax = jmul (Fin Math_PI) (Fin 2)"

text \<open>The body of the inner loop, for the radial values \<open>t\<close>, \<open>r\<close> of the current row.\<close>

definition vertex_step ::
  "engine \<Rightarrow> params \<Rightarrow> nat \<Rightarrow> jsnum \<Rightarrow> jsnum \<Rightarrow> nat \<Rightarrow> vert_st \<Rightarrow> vert_st" where
  "vertex_step env p Nu t r j st =
     (let s = jdiv (Fin (real j)) (Fin (real Nu - 1));
          u = jadd uMin (jmul s (jsub uMax uMin));
          (x, y, z) = surfacePoint env r u p;
          k = pk st;
          l = uk st
      in st\<lparr>pos := (pos st)[k := fround x, k + 1 := fround y, k + 2 := fround z], pk := k + 3,
             uv := (uv st)[l := fround s, l + 1 := fround t], uk := l + 2\<rparr>)"

text \<open>The body of the outer loop.\<close>

definition row_step :: "engine \<Rightarrow> params \<Rightarrow> nat \<Rightarrow> nat \<Rightarrow> nat \<Rightarrow> vert_st \<Rightarrow> vert_st" where
  "row_step env p Nr Nu i st =
     (let t = jdiv (Fin (real i)) (Fin (real Nr - 1));
          r = jadd rMin (jmul t (jsub (rMax p) rMin))
      in fold (vertex_step env p Nu t r) [0..<Nu] st)"

definition gen_vertices :: "engine \<Rightarrow> params \<Rightarrow> nat \<Rightarrow> nat \<Rightarrow> vert_st \<Rightarrow> vert_st" where
  "gen_vertices env p Nr Nu st = fold (row_step env p Nr Nu) [0..<Nr] st"

section \<open>Indices\<close>

definition vid :: "nat \<Rightarrow> nat \<Rightarrow> nat \<Rightarrow> nat" where
  "vid Nu i j = i * Nu + j"

text \<open>The body of the inner index loop: the index buffer and its write cursor \<^verbatim>\<open>t\<close>.\<close>

definition quad_step :: "nat \<Rightarrow> nat \<Rightarrow> nat \<Rightarrow> index_array \<times> nat \<Rightarrow> index_array \<times> nat" where
  "quad_step Nu i j st =
     (let (idx, t) = st;
          a = vid Nu i j;
          b = vid Nu (i + 1) j;
          c = vid Nu i (j + 1);
          d = vid Nu (i + 1) (j + 1);
          idx = idx_set idx t a; idx = idx_set idx (t + 1) b; idx = idx_set idx (t + 2) c;
          idx = idx_set idx (t + 3) b; idx = idx_set idx (t + 4) d; idx = idx_set idx (t + 5) c
      in (idx, t + 6))"

definition gen_indices :: "nat \<Rightarrow> nat \<Rightarrow> index_array \<Rightarrow> index_array" where
  "gen_indices Nr Nu idx =
     fst (fold (\<lambda>i. fold (quad_step Nu i) [0..<Nu - 1]) [0..<Nr - 1] (idx, 0))"

section \<open>Normals\<close>

text \<open>
  A vertex number read from the index buffer is \<open>None\<close> when the read was outside the
  buffer; a position read through it is then \<^verbatim>\<open>NaN\<close> and an accumulation through it is
  ignored.
\<close>

fun rdp :: "jsnum list \<Rightarrow> nat option \<Rightarrow> nat \<Rightarrow> jsnum" where
  "rdp xs None c = NaN"
| "rdp xs (Some i) c = rd xs (i * 3 + c)"

fun add_to :: "jsnum list \<Rightarrow> nat option \<Rightarrow> nat \<Rightarrow> jsnum \<Rightarrow> jsnum list" where
  "add_to xs None c v = xs"
| "add_to xs (Some i) c v = xs[i * 3 + c := fround (jadd (rd xs (i * 3 + c)) v)]"

text \<open>The body of the accumulation loop, for the triangle that starts at \<open>ii\<close>.\<close>

definition accum_tri :: "index_array \<Rightarrow> jsnum list \<Rightarrow> nat \<Rightarrow> jsnum list \<Rightarrow> jsnum list" where
  "accum_tri idx ps ii nrm =
     (let i0 = idx_get idx ii; i1 = idx_get idx (ii + 1); i2 = idx_get idx (ii + 2);
          p0x = rdp ps i0 0; p0y = rdp ps i0 1; p0z = rdp ps i0 2;
          p1x = rdp ps i1 0; p1y = rdp ps i1 1; p1z = rdp ps i1 2;
          p2x = rdp ps i2 0; p2y = rdp ps i2 1; p2z = rdp ps i2 2;
          e1x = jsub p1x p0x; e1y = jsub p1y p0y; e1z = jsub p1z p0z;
          e2x = jsub p2x p0x; e2y = jsub p2y p0y; e2z = jsub p2z p0z;
          nx = jsub (jmul e1y e2z) (jmul e1z e2y);
          ny = jsub (jmul e1z e2x) (jmul e1x e2z);
          nz = jsub (jmul e1x e2y) (jmul e1y e2x);
          nrm = add_to nrm i0 0 nx; nrm = add_to nrm i0 1 ny; nrm = add_to nrm i0 2 nz;
          nrm = add_to nrm i1 0 nx; nrm = add_to nrm i1 1 ny; nrm = add_to nrm i1 2 nz;
          nrm = add_to nrm i2 0 nx; nrm = add_to nrm i2 1 ny; nrm = add_to nrm i2 2 nz
      in nrm)"

function accumulate :: "index_array \<Rightarrow> jsnum list \<Rightarrow> nat \<Rightarrow> jsnum list \<Rightarrow> jsnum list" where
  "accumulate idx ps ii nrm =
     (if ii < length (elems idx) then accumulate idx ps (ii + 3) (accum_tri idx ps ii nrm)
      else nrm)"
  by pat_completeness auto
termination
  by (relation "measure (\<lambda>(idx, ps, ii, nrm). length (elems idx) - ii)") auto

declare accumulate.simps [simp del]

text \<open>The literal \<^verbatim>\<open>1e-12\<close>.\<close>

definition eps :: jsnum where
  "eps = d64 (1 / 10 ^ 12)"

text \<open>The body of the normalisation loop.\<close>

definition normalize_step :: "engine \<Rightarrow> nat \<Rightarrow> jsnum list \<Rightarrow> jsnum list" where
  "normalize_step env v nrm =
     (let x = rd nrm (v * 3); y = rd nrm (v * 3 + 1); z = rd nrm (v * 3 + 2);
          len = hypot env x y z
      in if jgt len eps
         then nrm[v * 3 := fround (jdiv x len), v * 3 + 1 := fround (jdiv y len),
                  v * 3 + 2 := fround (jdiv z len)]
         else nrm[v * 3 := Fin 0, v * 3 + 1 := Fin 0, v * 3 + 2 := Fin 1])"

definition normalize :: "engine \<Rightarrow> nat \<Rightarrow> jsnum list \<Rightarrow> jsnum list" where
  "normalize env vertCount nrm = fold (normalize_step env) [0..<vertCount] nrm"

section \<open>The build\<close>

text \<open>
  \<^verbatim>\<open>build\<close> allocates the three float buffers, fills positions and texture coordinates,
  allocates and fills the index buffer, derives the normals and then publishes the buffers
  in the object. A failed allocation leaves the object as it was.
\<close>

definition new_index_array :: "bool \<Rightarrow> nat \<Rightarrow> index_array" where
  "new_index_array useUint32 len =
     (if useUint32 then Uint32Array (replicate len 0) else Uint16Array (replicate len 0))"

definition build :: "engine \<Rightarrow> params \<Rightarrow> model \<Rightarrow> js_error + model" where
  "build env p this =
     (let Nr = eff_Nr p;
          Nu = eff_Nu p;
          vertCount = Nr * Nu
      in if \<not> can_create env 0 4 (vertCount * 3) then Inl RangeError
         else if \<not> can_create env 1 4 (vertCount * 3) then Inl RangeError
         else if \<not> can_create env 2 4 (vertCount * 2) then Inl RangeError
         else
           let st = gen_vertices env p Nr Nu
                      \<lparr>pos = replicate (vertCount * 3) (Fin 0),
                       uv = replicate (vertCount * 2) (Fin 0), pk = 0, uk = 0\<rparr>;
               triCount = (Nr - 1) * (Nu - 1) * 2;
               idxCount = triCount * 3;
               useUint32 = (vertCount > 65535)
           in if \<not> can_create env 3 (if useUint32 then 4 else 2) idxCount
              then Inl RangeError
              else
                let idx = gen_indices Nr Nu (new_index_array useUint32 idxCount);
                    nrm = accumulate idx (pos st) 0 (replicate (vertCount * 3) (Fin 0));
                    nrm = normalize env vertCount nrm
                in Inr (this\<lparr>positions := pos st, normals := nrm, texcoords := uv st,
                             indices := Some idx, indexCount := length (elems idx)\<rparr>))"

section \<open>The index type resolution of upload\<close>

text \<open>
  The part of \<^verbatim>\<open>upload\<close> after the buffer transfers. \<open>ext\<close> tells whether the
  graphics context provides the extension \<^verbatim>\<open>OES_element_index_uint\<close>; the second result
  tells whether the warning was written to the console.
\<close>

fun is_Uint32Array :: "index_array option \<Rightarrow> bool" where
  "is_Uint32Array (Some (Uint32Array xs)) = True"
| "is_Uint32Array x = False"

definition upload :: "bool \<Rightarrow> model \<Rightarrow> model \<times> bool" where
  "upload ext this =
     (if is_Uint32Array (indices this)
      then (this\<lparr>indexType := Some UNSIGNED_INT\<rparr>, \<not> ext)
      else (this\<lparr>indexType := Some UNSIGNED_SHORT\<rparr>, False))"

section \<open>Names for what the build computes\<close>

text \<open>
  The definitions of this section add nothing to the program: they name the values of the
  loop bodies and the intermediate results of \<^verbatim>\<open>build\<close>, so that the properties below
  can speak about them.
\<close>

text \<open>The normalised angle \<^verbatim>\<open>s\<close> and the angle \<^verbatim>\<open>u\<close> of column \<open>j\<close>, the normalised
  radius \<^verbatim>\<open>t\<close> and the radius \<^verbatim>\<open>r\<close> of row \<open>i\<close>, as the loops compute them.\<close>

definition s_of :: "nat \<Rightarrow> nat \<Rightarrow> jsnum" where
  "s_of Nu j = jdiv (Fin (real j)) (Fin (real Nu - 1))"

definition u_of :: "nat \<Rightarrow> nat \<Rightarrow> jsnum" where
  "u_of Nu j = jadd uMin (jmul (s_of Nu j) (jsub uMax uMin))"

definition t_of :: "nat \<Rightarrow> nat \<Rightarrow> jsnum" where
  "t_of Nr i = jdiv (Fin (real i)) (Fin (real Nr - 1))"

definition r_of :: "params \<Rightarrow> nat \<Rightarrow> nat \<Rightarrow> jsnum" where
  "r_of p Nr i = jadd rMin (jmul (t_of Nr i) (jsub (rMax p) rMin))"

text \<open>The position and texture coordinate buffers, row by row.\<close>

definition stored3 :: "jsnum \<times> jsnum \<times> jsnum \<Rightarrow> jsnum list" where
  "stored3 v = (case v of (x, y, z) \<Rightarrow> [fround x, fround y, fround z])"

definition row_pos :: "engine \<Rightarrow> params \<Rightarrow> nat \<Rightarrow> jsnum \<Rightarrow> nat list \<Rightarrow> jsnum list" where
  "row_pos env p Nu r js = concat (map (\<lambda>j. stored3 (surfacePoint env r (u_of Nu j) p)) js)"

definition row_uv :: "nat \<Rightarrow> jsnum \<Rightarrow> nat list \<Rightarrow> jsnum list" where
  "row_uv Nu t js = concat (map (\<lambda>j. [fround (s_of Nu j), fround t]) js)"

definition grid_pos :: "engine \<Rightarrow> params \<Rightarrow> nat \<Rightarrow> nat \<Rightarrow> nat list \<Rightarrow> jsnum list" where
  "grid_pos env p Nr Nu is = concat (map (\<lambda>i. row_pos env p Nu (r_of p Nr i) [0..<Nu]) is)"

definition grid_uv :: "nat \<Rightarrow> nat \<Rightarrow> nat list \<Rightarrow> jsnum list" where
  "grid_uv Nr Nu is = concat (map (\<lambda>i. row_uv Nu (t_of Nr i) [0..<Nu]) is)"

text \<open>The element conversion of a store into the index buffer, and the element type.\<close>

fun idx_store :: "index_array \<Rightarrow> nat \<Rightarrow> nat" where
  "idx_store (Uint16Array xs) v = v mod 2 ^ 16"
| "idx_store (Uint32Array xs) v = v mod 2 ^ 32"

fun same_kind :: "index_array \<Rightarrow> index_array \<Rightarrow> bool" where
  "same_kind (Uint16Array xs) (Uint16Array ys) = True"
| "same_kind (Uint32Array xs) (Uint32Array ys) = True"
| "same_kind x y = False"

text \<open>
  The index sequence of the design: for each quad, row by row, the triangles
  \<open>(a, b, c)\<close> and \<open>(b, d, c)\<close>.
\<close>

definition quad :: "nat \<Rightarrow> nat \<Rightarrow> nat \<Rightarrow> nat list" where
  "quad Nu i j =
     [vid Nu i j, vid Nu (i + 1) j, vid Nu i (j + 1),
      vid Nu (i + 1) j, vid Nu (i + 1) (j + 1), vid Nu i (j + 1)]"

definition quad_row :: "nat \<Rightarrow> nat \<Rightarrow> nat list" where
  "quad_row Nu i = concat (map (quad Nu i) [0..<Nu - 1])"

definition quads :: "nat \<Rightarrow> nat \<Rightarrow> nat list" where
  "quads Nr Nu = concat (map (quad_row Nu) [0..<Nr - 1])"

text \<open>The four allocations of \<^verbatim>\<open>build\<close>, and what it computes when they succeed.\<close>

definition all_created :: "engine \<Rightarrow> params \<Rightarrow> bool" where
  "all_created env p \<longleftrightarrow>
     can_create env 0 4 (eff_Nr p * eff_Nu p * 3) \<and>
     can_create env 1 4 (eff_Nr p * eff_Nu p * 3) \<and>
     can_create env 2 4 (eff_Nr p * eff_Nu p * 2) \<and>
     can_create env 3 (if eff_Nr p * eff_Nu p > 65535 then 4 else 2)
       ((eff_Nr p - 1) * (eff_Nu p - 1) * 2 * 3)"

definition vertex_buffers :: "engine \<Rightarrow> params \<Rightarrow> vert_st" where
  "vertex_buffers env p =
     gen_vertices env p (eff_Nr p) (eff_Nu p)
       \<lparr>pos = replicate (eff_Nr p * eff_Nu p * 3) (Fin 0),
        uv = replicate (eff_Nr p * eff_Nu p * 2) (Fin 0), pk = 0, uk = 0\<rparr>"

definition index_buffer :: "params \<Rightarrow> index_array" where
  "index_buffer p =
     gen_indices (eff_Nr p) (eff_Nu p)
       (new_index_array (eff_Nr p * eff_Nu p > 65535) ((eff_Nr p - 1) * (eff_Nu p - 1) * 2 * 3))"

definition accumulated :: "engine \<Rightarrow> params \<Rightarrow> jsnum list" where
  "accumulated env p =
     accumulate (index_buffer p) (pos (vertex_buffers env p)) 0
       (replicate (eff_Nr p * eff_Nu p * 3) (Fin 0))"

definition published :: "engine \<Rightarrow> params \<Rightarrow> model \<Rightarrow> model" where
  "published env p this =
     this\<lparr>positions := pos (vertex_buffers env p),
          normals := normalize env (eff_Nr p * eff_Nu p) (accumulated env p),
          texcoords := uv (vertex_buffers env p),
          indices := Some (index_buffer p),
          indexCount := length (elems (index_buffer p))\<rparr>"


text \<open>The parameters with both resolutions replaced by their clamped values.\<close>

definition clamped :: "params \<Rightarrow> params" where
  "clamped p = p\<lparr>p_Nr := Fin (real (eff_Nr p)), p_Nu := Fin (real (eff_Nu p))\<rparr>"

text \<open>
  The normals in the words of the design. A vector is a triple of numbers; \<open>vec_at xs v\<close>
  is the vector of vertex \<open>v\<close> in a buffer with three entries per vertex. The face
  normal of a triangle is the cross product of its two edges from the first corner.
  \<open>face_sum ps ts v acc\<close> adds to \<open>acc\<close>, triangle by triangle, the face normal of
  every triangle of \<open>ts\<close> once for each of its corners that is the vertex \<open>v\<close>;
  every sum is stored as a 32-bit float. \<open>normalize_vec\<close> divides a vector by its
  length when the length exceeds \<open>10\<^sup>-\<^sup>1\<^sup>2\<close> and gives \<open>(0, 0, 1)\<close> otherwise.
\<close>

type_synonym vec = "jsnum \<times> jsnum \<times> jsnum"

definition vec_at :: "jsnum list \<Rightarrow> nat \<Rightarrow> vec" where
  "vec_at xs v = (rd xs (v * 3), rd xs (v * 3 + 1), rd xs (v * 3 + 2))"

definition vadd :: "vec \<Rightarrow> vec \<Rightarrow> vec" where
  "vadd a n =
     (case a of (x, y, z) \<Rightarrow> case n of (nx, ny, nz) \<Rightarrow>
        (fround (jadd x nx), fround (jadd y ny), fround (jadd z nz)))"

definition cross :: "vec \<Rightarrow> vec \<Rightarrow> vec \<Rightarrow> vec" where
  "cross p0 p1 p2 =
     (case p0 of (p0x, p0y, p0z) \<Rightarrow> case p1 of (p1x, p1y, p1z) \<Rightarrow> case p2 of (p2x, p2y, p2z) \<Rightarrow>
        let e1x = jsub p1x p0x; e1y = jsub p1y p0y; e1z = jsub p1z p0z;
            e2x = jsub p2x p0x; e2y = jsub p2y p0y; e2z = jsub p2z p0z
        in (jsub (jmul e1y e2z) (jmul e1z e2y),
            jsub (jmul e1z e2x) (jmul e1x e2z),
            jsub (jmul e1x e2y) (jmul e1y e2x)))"

definition tri_normal :: "jsnum list \<Rightarrow> nat \<times> nat \<times> nat \<Rightarrow> vec" where
  "tri_normal ps t = (case t of (i0, i1, i2) \<Rightarrow> cross (vec_at ps i0) (vec_at ps i1) (vec_at ps i2))"

fun triangles :: "nat list \<Rightarrow> (nat \<times> nat \<times> nat) list" where
  "triangles (i0 # i1 # i2 # xs) = (i0, i1, i2) # triangles xs"
| "triangles xs = []"

fun face_sum :: "jsnum list \<Rightarrow> (nat \<times> nat \<times> nat) list \<Rightarrow> nat \<Rightarrow> vec \<Rightarrow> vec" where
  "face_sum ps [] v acc = acc"
| "face_sum ps ((i0, i1, i2) # ts) v acc =
     (let n = tri_normal ps (i0, i1, i2);
          acc = (if i0 = v then vadd acc n else acc);
          acc = (if i1 = v then vadd acc n else acc);
          acc = (if i2 = v then vadd acc n else acc)
      in face_sum ps ts v acc)"

definition normalize_vec :: "engine \<Rightarrow> vec \<Rightarrow> vec" where
  "normalize_vec env a =
     (case a of (x, y, z) \<Rightarrow>
        let len = hypot env x y z
        in if jgt len eps
           then (fround (jdiv x len), fround (jdiv y len), fround (jdiv z len))
           else (Fin 0, Fin 0, Fin 1))"

text \<open>The three accumulating stores for one corner of a triangle.\<close>

definition add3 :: "jsnum list \<Rightarrow> nat \<Rightarrow> vec \<Rightarrow> jsnum list" where
  "add3 nrm i n =
     (case n of (nx, ny, nz) \<Rightarrow>
        add_to (add_to (add_to nrm (Some i) 0 nx) (Some i) 1 ny) (Some i) 2 nz)"

text \<open>
  A mesh of two rows and three columns whose values are exact: \<open>a = 1\<close>, \<open>n = 0\<close>,
  \<open>m = 1/2\<close>, \<open>b = 1\<close>, \<open>phi = 0\<close>.
\<close>

definition seam_params :: params where
  "seam_params = \<lparr>p_a = 1, p_n = 0, p_m = 1 / 2, p_b = 1, p_phi = 0,
                   p_Nr = Fin 2, p_Nu = Fin 3\<rparr>"

text \<open>The initial parameters of \<^verbatim>\<open>main.js\<close>.\<close>

definition main_params :: params where
  "main_params = \<lparr>p_a = 4, p_n = 1 / 2, p_m = 6, p_b = 6, p_phi = 0,
                   p_Nr = Fin 120, p_Nu = Fin 120\<rparr>"

text \<open>
  An engine that provides every block and whose functions are correctly rounded. The values
  of the sine and the cosine at \<^verbatim>\<open>Math.PI / 2\<close>, \<^verbatim>\<open>Math.PI\<close> and \<^verbatim>\<open>2 * Math.PI\<close> are
  written out.
\<close>

definition rounded :: "real \<Rightarrow> real" where
  "rounded x = (case d64 x of Fin y \<Rightarrow> y | _ \<Rightarrow> 0)"

definition generous :: engine where
  "generous =
     \<lparr>can_alloc = (\<lambda>k n. True),
      m_sin = (\<lambda>x. if x = Math_PI / 2 then 1
                   else if x = Math_PI then 4967757600021511 / 2 ^ 105
                   else if x = 2 * Math_PI then - (4967757600021511 / 2 ^ 104)
                   else rounded (sin x)),
      m_cos = (\<lambda>x. if x = Math_PI / 2 then 4967757600021511 / 2 ^ 106
                   else if x = Math_PI then - 1
                   else if x = 2 * Math_PI then 1
                   else rounded (cos x)),
      m_exp = (\<lambda>x. d64 (exp x)),
      m_hypot = (\<lambda>x y z. d64 (sqrt (x * x + y * y + z * z)))\<rparr>"


section \<open>Properties of the resolution conversion\<close>

lemma js_truncate_of_int: "js_truncate (of_int k) = k"
  by (simp add: js_truncate_def)

lemma ToInt32_range: "- (2 ^ 31) \<le> ToInt32 v \<and> ToInt32 v < 2 ^ 31"
proof (cases v)
  case (Fin x)
  have "0 \<le> js_truncate x mod 2 ^ 32" "js_truncate x mod 2 ^ 32 < (2 ^ 32 :: int)"
    by simp_all
  then show ?thesis
    using Fin by (auto simp add: Let_def)
qed simp_all

lemma js_truncate_small:
  assumes "- 1 < x" "x < 1"
  shows "js_truncate x = 0"
proof (cases "x < 0")
  case True
  then have "\<lfloor>- x\<rfloor> = 0" using assms by (intro floor_unique) simp_all
  then show ?thesis using True by (simp add: js_truncate_def)
next
  case False
  then have "\<lfloor>x\<rfloor> = 0" using assms by (intro floor_unique) simp_all
  then show ?thesis using False by (simp add: js_truncate_def)
qed

lemma js_truncate_bounds:
  assumes "real_of_int lo - 1 < x" "x < real_of_int hi + 1" "lo \<le> 0" "0 \<le> hi"
  shows "lo \<le> js_truncate x \<and> js_truncate x \<le> hi"
proof (cases "x < 0")
  case True
  have "\<lfloor>- x\<rfloor> \<le> - lo"
  proof -
    have "- x < real_of_int (- lo) + 1" using assms(1) by simp
    then have "\<lfloor>- x\<rfloor> < - lo + 1" by (simp add: floor_less_iff)
    then show ?thesis by simp
  qed
  moreover have "0 \<le> \<lfloor>- x\<rfloor>" using True by simp
  ultimately have "lo \<le> - \<lfloor>- x\<rfloor> \<and> - \<lfloor>- x\<rfloor> \<le> hi" using assms(4) by linarith
  then show ?thesis using True by (simp add: js_truncate_def)
next
  case False
  have "\<lfloor>x\<rfloor> \<le> hi" using assms(2) by (simp add: floor_le_iff)
  moreover have "0 \<le> \<lfloor>x\<rfloor>" using False by simp
  ultimately have "lo \<le> \<lfloor>x\<rfloor> \<and> \<lfloor>x\<rfloor> \<le> hi" using assms(3) by linarith
  then show ?thesis using False by (simp add: js_truncate_def)
qed

lemma ToInt32_exact:
  assumes "- (2 ^ 31) \<le> js_truncate x" "js_truncate x < 2 ^ 31"
  shows "ToInt32 (Fin x) = js_truncate x"
proof (cases "0 \<le> js_truncate x")
  case True
  then have "js_truncate x mod 2 ^ 32 = js_truncate x"
    using assms by simp
  then show ?thesis using assms by (simp add: Let_def)
next
  case False
  have "(js_truncate x + 2 ^ 32) mod 2 ^ 32 = js_truncate x + 2 ^ 32"
    using assms False by (intro mod_pos_pos_trivial) simp_all
  then have "js_truncate x mod 2 ^ 32 = js_truncate x + 2 ^ 32"
    by simp
  then show ?thesis using assms False by (simp add: Let_def)
qed

lemma eff_Nr_small:
  assumes "p_Nr p = Fin x" "- (2 ^ 31) - 1 < x" "x < 3"
  shows "eff_Nr p = 2"
proof -
  have "- (2 ^ 31) \<le> js_truncate x \<and> js_truncate x \<le> 2"
    using js_truncate_bounds [of "- (2 ^ 31)" x 2] assms by simp
  then have "ToInt32 (Fin x) \<le> 2"
    using ToInt32_exact [of x] by simp
  then show ?thesis using assms by (simp add: eff_Nr_def)
qed

section \<open>The vertex loops\<close>

lemma length_list3 [simp]: "length (stored3 v) = 3"
  by (cases v) (simp add: stored3_def)

lemma length_row_pos [simp]: "length (row_pos env p Nu r js) = 3 * length js"
  by (induction js) (simp_all add: row_pos_def)

lemma length_row_uv [simp]: "length (row_uv Nu t js) = 2 * length js"
  by (induction js) (simp_all add: row_uv_def)

lemma update3_append:
  assumes "3 \<le> length R"
  shows "(P @ R)[length P := x, length P + 1 := y, length P + 2 := z] = (P @ [x, y, z]) @ drop 3 R"
proof -
  obtain r0 r1 r2 R' where R: "R = r0 # r1 # r2 # R'"
    using assms by (cases R; cases "tl R"; cases "tl (tl R)") auto
  show ?thesis unfolding R by (simp add: list_update_append)
qed

lemma update2_append:
  assumes "2 \<le> length R"
  shows "(P @ R)[length P := x, length P + 1 := y] = (P @ [x, y]) @ drop 2 R"
proof -
  obtain r0 r1 R' where R: "R = r0 # r1 # R'"
    using assms by (cases R; cases "tl R") auto
  show ?thesis unfolding R by (simp add: list_update_append)
qed

lemma vertex_step_alt:
  "vertex_step env p Nu t r j st =
     (case surfacePoint env r (u_of Nu j) p of (x, y, z) \<Rightarrow>
        st\<lparr>pos := (pos st)[pk st := fround x, pk st + 1 := fround y, pk st + 2 := fround z],
           pk := pk st + 3,
           uv := (uv st)[uk st := fround (s_of Nu j), uk st + 1 := fround t], uk := uk st + 2\<rparr>)"
  by (simp only: vertex_step_def Let_def s_of_def u_of_def)

lemma vertex_step_append:
  assumes "pos st = P @ R" "pk st = length P" "3 \<le> length R"
    and "uv st = U @ S" "uk st = length U" "2 \<le> length S"
  shows "vertex_step env p Nu t r j st =
    \<lparr>pos = (P @ stored3 (surfacePoint env r (u_of Nu j) p)) @ drop 3 R,
     uv = (U @ [fround (s_of Nu j), fround t]) @ drop 2 S,
     pk = length P + 3, uk = length U + 2\<rparr>"
proof -
  obtain x y z where xyz: "surfacePoint env r (u_of Nu j) p = (x, y, z)"
    by (cases "surfacePoint env r (u_of Nu j) p") auto
  show ?thesis
    using assms update3_append [OF assms(3), of P "fround x" "fround y" "fround z"]
      update2_append [OF assms(6), of U "fround (s_of Nu j)" "fround t"]
    by (simp add: vertex_step_alt xyz stored3_def)
qed

lemma inner_fold:
  assumes "pos st = P @ R" "pk st = length P" "3 * length js \<le> length R"
    and "uv st = U @ S" "uk st = length U" "2 * length js \<le> length S"
  shows "fold (vertex_step env p Nu t r) js st =
    \<lparr>pos = (P @ row_pos env p Nu r js) @ drop (3 * length js) R,
     uv = (U @ row_uv Nu t js) @ drop (2 * length js) S,
     pk = length P + 3 * length js, uk = length U + 2 * length js\<rparr>"
  using assms
proof (induction js arbitrary: st P R U S)
  case Nil
  then show ?case by (simp add: row_pos_def row_uv_def)
next
  case (Cons j js)
  let ?st = "vertex_step env p Nu t r j st"
  have step: "?st = \<lparr>pos = (P @ stored3 (surfacePoint env r (u_of Nu j) p)) @ drop 3 R,
     uv = (U @ [fround (s_of Nu j), fround t]) @ drop 2 S,
     pk = length P + 3, uk = length U + 2\<rparr>"
    using Cons.prems by (intro vertex_step_append) simp_all
  have "fold (vertex_step env p Nu t r) js ?st =
     \<lparr>pos = ((P @ stored3 (surfacePoint env r (u_of Nu j) p)) @ row_pos env p Nu r js) @ drop (3 * length js) (drop 3 R),
     uv = ((U @ [fround (s_of Nu j), fround t]) @ row_uv Nu t js) @ drop (2 * length js) (drop 2 S),
     pk = length (P @ stored3 (surfacePoint env r (u_of Nu j) p)) + 3 * length js,
     uk = length (U @ [fround (s_of Nu j), fround t]) + 2 * length js\<rparr>"
    using Cons.prems by (intro Cons.IH) (simp_all add: step)
  then show ?case
    by (simp add: row_pos_def row_uv_def add.commute)
qed

lemma length_grid_pos [simp]: "length (grid_pos env p Nr Nu is) = 3 * Nu * length is"
  by (induction "is") (simp_all add: grid_pos_def)

lemma length_grid_uv [simp]: "length (grid_uv Nr Nu is) = 2 * Nu * length is"
  by (induction "is") (simp_all add: grid_uv_def)

lemma row_step_alt:
  "row_step env p Nr Nu i st = fold (vertex_step env p Nu (t_of Nr i) (r_of p Nr i)) [0..<Nu] st"
  by (simp only: row_step_def Let_def t_of_def r_of_def)

lemma row_step_append:
  assumes "pos st = P @ R" "pk st = length P" "3 * Nu \<le> length R"
    and "uv st = U @ S" "uk st = length U" "2 * Nu \<le> length S"
  shows "row_step env p Nr Nu i st =
    \<lparr>pos = (P @ row_pos env p Nu (r_of p Nr i) [0..<Nu]) @ drop (3 * Nu) R,
     uv = (U @ row_uv Nu (t_of Nr i) [0..<Nu]) @ drop (2 * Nu) S,
     pk = length P + 3 * Nu, uk = length U + 2 * Nu\<rparr>"
  using inner_fold [of st P R "[0..<Nu]" U S env p Nu "t_of Nr i" "r_of p Nr i"] assms
  by (simp add: row_step_alt)

lemma outer_fold:
  assumes "pos st = P @ R" "pk st = length P" "3 * Nu * length is \<le> length R"
    and "uv st = U @ S" "uk st = length U" "2 * Nu * length is \<le> length S"
  shows "fold (row_step env p Nr Nu) is st =
    \<lparr>pos = (P @ grid_pos env p Nr Nu is) @ drop (3 * Nu * length is) R,
     uv = (U @ grid_uv Nr Nu is) @ drop (2 * Nu * length is) S,
     pk = length P + 3 * Nu * length is, uk = length U + 2 * Nu * length is\<rparr>"
  using assms
proof (induction "is" arbitrary: st P R U S)
  case Nil
  then show ?case by (simp add: grid_pos_def grid_uv_def)
next
  case (Cons i "is")
  let ?st = "row_step env p Nr Nu i st"
  let ?P = "P @ row_pos env p Nu (r_of p Nr i) [0..<Nu]"
  let ?U = "U @ row_uv Nu (t_of Nr i) [0..<Nu]"
  have step: "?st = \<lparr>pos = ?P @ drop (3 * Nu) R, uv = ?U @ drop (2 * Nu) S,
     pk = length P + 3 * Nu, uk = length U + 2 * Nu\<rparr>"
    using Cons.prems by (intro row_step_append) simp_all
  have "fold (row_step env p Nr Nu) is ?st =
     \<lparr>pos = (?P @ grid_pos env p Nr Nu is) @ drop (3 * Nu * length is) (drop (3 * Nu) R),
      uv = (?U @ grid_uv Nr Nu is) @ drop (2 * Nu * length is) (drop (2 * Nu) S),
      pk = length ?P + 3 * Nu * length is, uk = length ?U + 2 * Nu * length is\<rparr>"
    using Cons.prems by (intro Cons.IH) (simp_all add: step)
  then show ?case
    by (simp add: grid_pos_def grid_uv_def add.commute)
qed

lemma gen_vertices_eq:
  "gen_vertices env p Nr Nu
     \<lparr>pos = replicate (Nr * Nu * 3) (Fin 0), uv = replicate (Nr * Nu * 2) (Fin 0), pk = 0, uk = 0\<rparr> =
   \<lparr>pos = grid_pos env p Nr Nu [0..<Nr], uv = grid_uv Nr Nu [0..<Nr], pk = 3 * Nu * Nr, uk = 2 * Nu * Nr\<rparr>"
  using outer_fold [of _ "[]" "replicate (Nr * Nu * 3) (Fin 0)" Nu "[0..<Nr]" "[]" "replicate (Nr * Nu * 2) (Fin 0)" env p Nr]
  by (simp add: gen_vertices_def mult.commute)

lemma concat_uniform_nth:
  assumes "\<And>k. k < n \<Longrightarrow> length (f k) = m" "k < n" "c < m"
  shows "concat (map f [0..<n]) ! (k * m + c) = f k ! c"
  using assms
proof (induction n)
  case 0
  then show ?case by simp
next
  case (Suc n)
  have len: "length (concat (map f [0..<n])) = n * m"
    using Suc.prems(1) by (induction n) simp_all
  show ?case
  proof (cases "k < n")
    case True
    then have "k * m + c < n * m"
      using Suc.prems(3) by (metis add.commute mult_Suc Suc_leI mult_le_mono1 add_less_mono1 less_le_trans)
    then show ?thesis
      using Suc True len by (simp add: nth_append)
  next
    case False
    then have "k = n" using Suc.prems(2) by simp
    then show ?thesis using len by (simp add: nth_append)
  qed
qed

lemma grid_pos_nth:
  assumes "i < Nr" "j < Nu" "c < 3"
  shows "grid_pos env p Nr Nu [0..<Nr] ! (3 * (i * Nu + j) + c) =
         stored3 (surfacePoint env (r_of p Nr i) (u_of Nu j) p) ! c"
proof -
  have "grid_pos env p Nr Nu [0..<Nr] ! (i * (3 * Nu) + (j * 3 + c)) =
        row_pos env p Nu (r_of p Nr i) [0..<Nu] ! (j * 3 + c)"
    unfolding grid_pos_def
  proof (rule concat_uniform_nth)
    show "j * 3 + c < 3 * Nu" using assms by simp
  qed (use assms in simp_all)
  also have "\<dots> = stored3 (surfacePoint env (r_of p Nr i) (u_of Nu j) p) ! c"
    unfolding row_pos_def by (rule concat_uniform_nth) (use assms in simp_all)
  finally show ?thesis by (simp add: algebra_simps)
qed

lemma grid_uv_nth:
  assumes "i < Nr" "j < Nu" "c < 2"
  shows "grid_uv Nr Nu [0..<Nr] ! (2 * (i * Nu + j) + c) =
         [fround (s_of Nu j), fround (t_of Nr i)] ! c"
proof -
  have "grid_uv Nr Nu [0..<Nr] ! (i * (2 * Nu) + (j * 2 + c)) =
        row_uv Nu (t_of Nr i) [0..<Nu] ! (j * 2 + c)"
    unfolding grid_uv_def
  proof (rule concat_uniform_nth)
    show "j * 2 + c < 2 * Nu" using assms by simp
  qed (use assms in simp_all)
  also have "\<dots> = [fround (s_of Nu j), fround (t_of Nr i)] ! c"
    unfolding row_uv_def by (rule concat_uniform_nth) (use assms in simp_all)
  finally show ?thesis by (simp add: algebra_simps)
qed

section \<open>The index loops\<close>

lemma same_kind_refl [simp]: "same_kind x x"
  by (cases x) simp_all

lemma same_kind_set [simp]: "same_kind (idx_set x k v) y = same_kind x y"
  by (cases x; cases y) simp_all

lemma idx_store_set [simp]: "idx_store (idx_set x k v) = idx_store x"
  by (cases x) (simp_all add: fun_eq_iff)

lemma elems_set [simp]: "elems (idx_set x k v) = (elems x)[k := idx_store x v]"
  by (cases x) simp_all

lemma update6_append:
  assumes "6 \<le> length R"
  shows "(P @ R)[length P := a, length P + 1 := b, length P + 2 := c,
                 length P + 3 := d, length P + 4 := e, length P + 5 := f] =
         (P @ [a, b, c, d, e, f]) @ drop 6 R"
proof -
  obtain r0 r1 r2 R' where R: "R = r0 # r1 # r2 # R'" "3 \<le> length R'"
    using assms by (cases R; cases "tl R"; cases "tl (tl R)") auto
  then obtain r3 r4 r5 R'' where R': "R' = r3 # r4 # r5 # R''"
    by (cases R'; cases "tl R'"; cases "tl (tl R')") auto
  show ?thesis unfolding R R' by (simp add: list_update_append)
qed

lemma length_quad [simp]: "length (quad Nu i j) = 6"
  by (simp add: quad_def)

lemma length_quad_row [simp]: "length (quad_row Nu i) = 6 * (Nu - 1)"
proof -
  have "length (concat (map (quad Nu i) js)) = 6 * length js" for js
    by (induction js) simp_all
  then show ?thesis by (simp add: quad_row_def)
qed

lemma length_quads [simp]: "length (quads Nr Nu) = 6 * (Nr - 1) * (Nu - 1)"
proof -
  have "length (concat (map (quad_row Nu) is)) = 6 * (Nu - 1) * length is" for "is"
    by (induction "is") simp_all
  then show ?thesis by (simp add: quads_def mult.commute mult.left_commute)
qed

lemma quad_step_append:
  assumes "elems idx = P @ R" "t = length P" "6 \<le> length R"
  shows "\<exists>idx'. quad_step Nu i j (idx, t) = (idx', length P + 6) \<and> same_kind idx' idx \<and>
           elems idx' = (P @ map (idx_store idx) (quad Nu i j)) @ drop 6 R"
  using assms update6_append [OF assms(3), of P]
  by (simp add: quad_step_def Let_def quad_def)

lemma same_kind_store: "same_kind x y \<Longrightarrow> idx_store x = idx_store y"
  by (cases x; cases y) (simp_all add: fun_eq_iff)

lemma same_kind_trans: "same_kind x y \<Longrightarrow> same_kind y z \<Longrightarrow> same_kind x z"
  by (cases x; cases y; cases z) simp_all

lemma quad_fold:
  assumes "elems idx = P @ R" "t = length P" "6 * length js \<le> length R"
  shows "\<exists>idx'. fold (quad_step Nu i) js (idx, t) = (idx', length P + 6 * length js) \<and>
           same_kind idx' idx \<and>
           elems idx' = (P @ map (idx_store idx) (concat (map (quad Nu i) js))) @ drop (6 * length js) R"
  using assms
proof (induction js arbitrary: idx t P R)
  case Nil
  then show ?case by simp
next
  case (Cons j js)
  let ?P = "P @ map (idx_store idx) (quad Nu i j)"
  obtain idx1 where 1: "quad_step Nu i j (idx, t) = (idx1, length P + 6)" "same_kind idx1 idx"
    "elems idx1 = ?P @ drop 6 R"
    using quad_step_append [of idx P R t Nu i j] Cons.prems by auto
  have "\<exists>idx'. fold (quad_step Nu i) js (idx1, length P + 6) = (idx', length ?P + 6 * length js) \<and>
           same_kind idx' idx1 \<and>
           elems idx' = (?P @ map (idx_store idx1) (concat (map (quad Nu i) js))) @ drop (6 * length js) (drop 6 R)"
    using Cons.prems 1 by (intro Cons.IH) simp_all
  then obtain idx2 where 2: "fold (quad_step Nu i) js (idx1, length P + 6) = (idx2, length ?P + 6 * length js)"
    "same_kind idx2 idx1"
    "elems idx2 = (?P @ map (idx_store idx1) (concat (map (quad Nu i) js))) @ drop (6 * length js) (drop 6 R)"
    by blast
  have "same_kind idx2 idx" using 1(2) 2(2) by (rule same_kind_trans [rotated])
  moreover have "idx_store idx1 = idx_store idx" using 1(2) by (rule same_kind_store)
  ultimately show ?case
    using 1(1) 2(1) 2(3) by (simp add: add.commute)
qed

lemma quad_row_fold:
  assumes "elems idx = P @ R" "t = length P" "6 * (Nu - 1) * length is \<le> length R"
  shows "\<exists>idx'. fold (\<lambda>i. fold (quad_step Nu i) [0..<Nu - 1]) is (idx, t) =
             (idx', length P + 6 * (Nu - 1) * length is) \<and>
           same_kind idx' idx \<and>
           elems idx' = (P @ map (idx_store idx) (concat (map (quad_row Nu) is))) @
                        drop (6 * (Nu - 1) * length is) R"
  using assms
proof (induction "is" arbitrary: idx t P R)
  case Nil
  then show ?case by simp
next
  case (Cons i "is")
  let ?P = "P @ map (idx_store idx) (quad_row Nu i)"
  let ?n = "6 * (Nu - 1)"
  obtain idx1 where 1: "fold (quad_step Nu i) [0..<Nu - 1] (idx, t) = (idx1, length P + ?n)"
    "same_kind idx1 idx" "elems idx1 = ?P @ drop ?n R"
    using quad_fold [of idx P R t "[0..<Nu - 1]" Nu i] Cons.prems
    by (auto simp: quad_row_def)
  have "\<exists>idx'. fold (\<lambda>i. fold (quad_step Nu i) [0..<Nu - 1]) is (idx1, length P + ?n) =
             (idx', length ?P + ?n * length is) \<and>
           same_kind idx' idx1 \<and>
           elems idx' = (?P @ map (idx_store idx1) (concat (map (quad_row Nu) is))) @
                        drop (?n * length is) (drop ?n R)"
    using Cons.prems 1 by (intro Cons.IH) simp_all
  then obtain idx2 where 2:
    "fold (\<lambda>i. fold (quad_step Nu i) [0..<Nu - 1]) is (idx1, length P + ?n) =
       (idx2, length ?P + ?n * length is)"
    "same_kind idx2 idx1"
    "elems idx2 = (?P @ map (idx_store idx1) (concat (map (quad_row Nu) is))) @
                        drop (?n * length is) (drop ?n R)"
    by blast
  have "same_kind idx2 idx" using 1(2) 2(2) by (rule same_kind_trans [rotated])
  moreover have "idx_store idx1 = idx_store idx" using 1(2) by (rule same_kind_store)
  ultimately show ?case
    using 1(1) 2(1) 2(3) by (simp add: add.commute)
qed

lemma gen_indices_eq:
  assumes "length (elems idx) = 6 * (Nr - 1) * (Nu - 1)"
  shows "same_kind (gen_indices Nr Nu idx) idx \<and>
         elems (gen_indices Nr Nu idx) = map (idx_store idx) (quads Nr Nu)"
proof -
  obtain idx' where "fold (\<lambda>i. fold (quad_step Nu i) [0..<Nu - 1]) [0..<Nr - 1] (idx, 0) =
             (idx', length ([]::nat list) + 6 * (Nu - 1) * length [0..<Nr - 1])"
    "same_kind idx' idx"
    "elems idx' = ([] @ map (idx_store idx) (concat (map (quad_row Nu) [0..<Nr - 1]))) @
                        drop (6 * (Nu - 1) * length [0..<Nr - 1]) (elems idx)"
    using quad_row_fold [of idx "[]" "elems idx" 0 Nu "[0..<Nr - 1]"] assms
    by (auto simp: mult.commute mult.left_commute)
  then show ?thesis
    using assms by (simp add: gen_indices_def quads_def mult.commute mult.left_commute)
qed

section \<open>The result of a build\<close>

lemma build_eq:
  "build env p this = (if all_created env p then Inr (published env p this) else Inl RangeError)"
  by (simp add: build_def Let_def all_created_def published_def vertex_buffers_def
      index_buffer_def accumulated_def)

lemma build_InrD:
  assumes "build env p this = Inr M"
  shows "all_created env p" "M = published env p this"
  using assms by (simp_all add: build_eq split: if_splits)

lemma eff_Nr_ge: "2 \<le> eff_Nr p"
  by (simp add: eff_Nr_def)

lemma eff_Nu_ge: "3 \<le> eff_Nu p"
  by (simp add: eff_Nu_def)

lemma pos_vertex_buffers:
  "pos (vertex_buffers env p) = grid_pos env p (eff_Nr p) (eff_Nu p) [0..<eff_Nr p]"
  by (simp add: vertex_buffers_def gen_vertices_eq)

lemma uv_vertex_buffers:
  "uv (vertex_buffers env p) = grid_uv (eff_Nr p) (eff_Nu p) [0..<eff_Nr p]"
  by (simp add: vertex_buffers_def gen_vertices_eq)

lemma elems_new_index_array [simp]: "elems (new_index_array w n) = replicate n 0"
  by (simp add: new_index_array_def)

lemma index_buffer_eq:
  "same_kind (index_buffer p) (new_index_array (eff_Nr p * eff_Nu p > 65535) 0) \<and>
   elems (index_buffer p) =
     map (\<lambda>v. v mod (if eff_Nr p * eff_Nu p > 65535 then 2 ^ 32 else 2 ^ 16))
       (quads (eff_Nr p) (eff_Nu p))"
proof -
  let ?idx0 = "new_index_array (eff_Nr p * eff_Nu p > 65535) ((eff_Nr p - 1) * (eff_Nu p - 1) * 2 * 3)"
  have "length (elems ?idx0) = 6 * (eff_Nr p - 1) * (eff_Nu p - 1)" by simp
  from gen_indices_eq [OF this]
  have "same_kind (index_buffer p) ?idx0"
    "elems (index_buffer p) = map (idx_store ?idx0) (quads (eff_Nr p) (eff_Nu p))"
    by (simp_all add: index_buffer_def)
  moreover have "same_kind ?idx0 (new_index_array (eff_Nr p * eff_Nu p > 65535) 0)"
    by (simp add: new_index_array_def)
  moreover have "idx_store ?idx0 = (\<lambda>v. v mod (if eff_Nr p * eff_Nu p > 65535 then 2 ^ 32 else 2 ^ 16))"
    by (simp add: new_index_array_def fun_eq_iff)
  ultimately show ?thesis
    using same_kind_trans by auto
qed

lemma length_index_buffer:
  "length (elems (index_buffer p)) = 6 * (eff_Nr p - 1) * (eff_Nu p - 1)"
  by (simp add: index_buffer_eq)

lemma quad_vertices_less:
  assumes "i < Nr - 1" "j < Nu - 1" "v \<in> set (quad Nu i j)"
  shows "v < Nr * Nu"
proof -
  have "(i + 1) * Nu + (j + 1) < Nr * Nu"
  proof -
    have "(i + 1) * Nu \<le> (Nr - 1) * Nu" using assms(1) by (intro mult_le_mono1) simp
    then have "(i + 1) * Nu + (j + 1) < (Nr - 1) * Nu + Nu" using assms(2) by simp
    also have "\<dots> = Nr * Nu" using assms(1) by (cases Nr) simp_all
    finally show ?thesis .
  qed
  moreover have "v \<le> (i + 1) * Nu + (j + 1)"
    using assms(3) by (auto simp: quad_def vid_def)
  ultimately show ?thesis by simp
qed

lemma quads_vertices_less:
  assumes "v \<in> set (quads Nr Nu)"
  shows "v < Nr * Nu"
  using assms quad_vertices_less [of _ Nr _ Nu v]
  by (auto simp: quads_def quad_row_def)

lemma ToInt32_of_nat:
  assumes "n < 2 ^ 31"
  shows "ToInt32 (Fin (real n)) = int n"
proof -
  have "js_truncate (real n) = int n"
    using js_truncate_of_int [of "int n"] by simp
  then show ?thesis using assms ToInt32_exact [of "real n"] by simp
qed

lemma eff_Nr_update [simp]: "eff_Nr (p\<lparr>p_Nr := v\<rparr>) = nat (max 2 (ToInt32 v))"
  by (simp add: eff_Nr_def)

lemma eff_Nu_update [simp]: "eff_Nu (p\<lparr>p_Nu := v\<rparr>) = nat (max 3 (ToInt32 v))"
  by (simp add: eff_Nu_def)

lemma eff_Nr_update_other [simp]: "eff_Nr (p\<lparr>p_Nu := v\<rparr>) = eff_Nr p"
  by (simp add: eff_Nr_def)

lemma eff_Nu_update_other [simp]: "eff_Nu (p\<lparr>p_Nr := v\<rparr>) = eff_Nu p"
  by (simp add: eff_Nu_def)

lemma eff_of_nat:
  assumes "n < 2 ^ 31"
  shows "nat (max 2 (ToInt32 (Fin (real n)))) = max 2 n" "nat (max 3 (ToInt32 (Fin (real n)))) = max 3 n"
  using ToInt32_of_nat [OF assms] by simp_all

lemma build_generous:
  assumes "eff_Nr p * eff_Nu p * 12 \<le> 2 ^ 53 - 1" 
    "(eff_Nr p - 1) * (eff_Nu p - 1) * 24 \<le> 2 ^ 53 - 1"
  shows "build generous p this = Inr (published generous p this)"
proof -
  have "can_alloc generous k n" for k n
    by (simp add: generous_def)
  then show ?thesis
    using assms by (simp add: build_eq all_created_def can_create_def)
qed

lemma length_positions_published:
  "length (positions (published env p this)) = 3 * eff_Nr p * eff_Nu p"
  by (simp add: published_def pos_vertex_buffers mult.commute mult.left_commute)

section \<open>Clamped parameters\<close>

lemma eff_Nr_less: "eff_Nr p < 2 ^ 31"
  using ToInt32_range [of "p_Nr p"] by (auto simp: eff_Nr_def max_def)

lemma eff_Nu_less: "eff_Nu p < 2 ^ 31"
  using ToInt32_range [of "p_Nu p"] by (auto simp: eff_Nu_def max_def)

lemma eff_clamped [simp]: "eff_Nr (clamped p) = eff_Nr p" "eff_Nu (clamped p) = eff_Nu p"
proof -
  show "eff_Nr (clamped p) = eff_Nr p"
    using eff_of_nat(1) [OF eff_Nr_less, of p] eff_Nr_ge [of p] by (simp add: clamped_def)
  show "eff_Nu (clamped p) = eff_Nu p"
    using eff_of_nat(2) [OF eff_Nu_less, of p] eff_Nu_ge [of p] by (simp add: clamped_def)
qed

lemma surfacePoint_clamped [simp]: "surfacePoint env r u (clamped p) = surfacePoint env r u p"
  by (simp add: surfacePoint_def clamped_def)

lemma rMax_clamped [simp]: "rMax (clamped p) = rMax p"
  by (simp add: rMax_def clamped_def)

lemma vertex_step_clamped [simp]: "vertex_step env (clamped p) = vertex_step env p"
  by (simp add: fun_eq_iff vertex_step_def)

lemma row_step_clamped [simp]: "row_step env (clamped p) = row_step env p"
  by (simp add: fun_eq_iff row_step_def)

lemma gen_vertices_clamped [simp]: "gen_vertices env (clamped p) = gen_vertices env p"
  by (simp add: fun_eq_iff gen_vertices_def)

lemma published_clamped: "published env (clamped p) this = published env p this"
  by (simp add: published_def vertex_buffers_def index_buffer_def accumulated_def)

lemma all_created_clamped: "all_created env (clamped p) = all_created env p"
  by (simp add: all_created_def)

section \<open>The stored indices\<close>

lemma is_Uint32Array_same_kind:
  "same_kind x y \<Longrightarrow> is_Uint32Array (Some x) = is_Uint32Array (Some y)"
  by (cases x; cases y) simp_all

lemma is_Uint32Array_index_buffer:
  "is_Uint32Array (Some (index_buffer p)) \<longleftrightarrow> 65535 < eff_Nr p * eff_Nu p"
proof -
  have "same_kind (index_buffer p) (new_index_array (eff_Nr p * eff_Nu p > 65535) 0)"
    using index_buffer_eq [of p] by blast
  from is_Uint32Array_same_kind [OF this] show ?thesis
    by (simp add: new_index_array_def)
qed

lemma indices_published [simp]: "indices (published env p this) = Some (index_buffer p)"
  by (simp add: published_def)

lemma index_buffer_nth_less:
  assumes "k < length (elems (index_buffer p))"
  shows "elems (index_buffer p) ! k < eff_Nr p * eff_Nu p"
proof -
  let ?m = "if eff_Nr p * eff_Nu p > 65535 then 2 ^ 32 else (2 ^ 16 :: nat)"
  have k: "k < length (quads (eff_Nr p) (eff_Nu p))"
    using assms by (simp add: index_buffer_eq)
  then have "quads (eff_Nr p) (eff_Nu p) ! k < eff_Nr p * eff_Nu p"
    by (intro quads_vertices_less nth_mem)
  moreover have "elems (index_buffer p) ! k = quads (eff_Nr p) (eff_Nu p) ! k mod ?m"
    using k by (simp add: index_buffer_eq)
  moreover have "quads (eff_Nr p) (eff_Nu p) ! k mod ?m \<le> quads (eff_Nr p) (eff_Nu p) ! k"
    by (rule mod_less_eq_dividend)
  ultimately show ?thesis by linarith
qed

lemma quad_subset_quads:
  assumes "i < Nr - 1" "j < Nu - 1"
  shows "set (quad Nu i j) \<subseteq> set (quads Nr Nu)"
proof
  fix x assume "x \<in> set (quad Nu i j)"
  then have "x \<in> set (quad_row Nu i)"
    using assms(2) by (force simp: quad_row_def)
  then show "x \<in> set (quads Nr Nu)"
    using assms(1) by (force simp: quads_def)
qed

lemma quads_unfold:
  "quads Nr Nu =
     concat (map (\<lambda>i. concat (map (\<lambda>j.
       [i * Nu + j, (i + 1) * Nu + j, i * Nu + (j + 1),
        (i + 1) * Nu + j, (i + 1) * Nu + (j + 1), i * Nu + (j + 1)]) [0..<Nu - 1])) [0..<Nr - 1])"
proof -
  have q: "quad Nu i = (\<lambda>j. [i * Nu + j, (i + 1) * Nu + j, i * Nu + (j + 1),
        (i + 1) * Nu + j, (i + 1) * Nu + (j + 1), i * Nu + (j + 1)])" for i
    by (simp add: fun_eq_iff quad_def vid_def)
  have "quad_row Nu = (\<lambda>i. concat (map (\<lambda>j.
       [i * Nu + j, (i + 1) * Nu + j, i * Nu + (j + 1),
        (i + 1) * Nu + j, (i + 1) * Nu + (j + 1), i * Nu + (j + 1)]) [0..<Nu - 1]))"
    by (simp only: fun_eq_iff quad_row_def q) simp
  then show ?thesis by (simp only: quads_def)
qed

lemma elems_index_buffer_small:
  assumes "eff_Nr p * eff_Nu p \<le> 2 ^ 32"
  shows "elems (index_buffer p) = quads (eff_Nr p) (eff_Nu p)"
proof -
  let ?m = "if eff_Nr p * eff_Nu p > 65535 then 2 ^ 32 else (2 ^ 16 :: nat)"
  have "v mod ?m = v" if "v \<in> set (quads (eff_Nr p) (eff_Nu p))" for v
  proof -
    have "v < eff_Nr p * eff_Nu p" using that by (rule quads_vertices_less)
    then have "v < ?m" using assms by (simp split: if_splits)
    then show ?thesis by (rule mod_less)
  qed
  then have "map (\<lambda>v. v mod ?m) (quads (eff_Nr p) (eff_Nu p)) = quads (eff_Nr p) (eff_Nu p)"
    by (intro map_idI)
  then show ?thesis by (simp add: index_buffer_eq)
qed


lemma positions_published:
  "positions (published env p this) = grid_pos env p (eff_Nr p) (eff_Nu p) [0..<eff_Nr p]"
  by (simp add: published_def pos_vertex_buffers)

lemma texcoords_published:
  "texcoords (published env p this) = grid_uv (eff_Nr p) (eff_Nu p) [0..<eff_Nr p]"
  by (simp add: published_def uv_vertex_buffers)

section \<open>The normal loops\<close>

lemma length_add_to [simp]: "length (add_to xs io c v) = length xs"
  by (cases io) simp_all

lemma length_add3 [simp]: "length (add3 nrm i n) = length nrm"
  by (cases n) (simp add: add3_def)

lemma accum_tri_eq:
  assumes "ii + 2 < length (elems idx)"
  shows "accum_tri idx ps ii nrm =
    (let t = (elems idx ! ii, elems idx ! (ii + 1), elems idx ! (ii + 2));
         n = tri_normal ps t
     in add3 (add3 (add3 nrm (elems idx ! ii) n) (elems idx ! (ii + 1)) n) (elems idx ! (ii + 2)) n)"
  using assms
  by (simp add: accum_tri_def idx_get_def tri_normal_def cross_def vec_at_def add3_def Let_def)

lemma length_accum_tri [simp]: "length (accum_tri idx ps ii nrm) = length nrm"
  by (simp add: accum_tri_def Let_def)

lemma vec_at_add3:
  assumes "i * 3 + 2 < length nrm" "v * 3 + 2 < length nrm"
  shows "vec_at (add3 nrm i n) v = (if i = v then vadd (vec_at nrm v) n else vec_at nrm v)"
proof -
  obtain nx ny nz where n: "n = (nx, ny, nz)" by (cases n) auto
  show ?thesis
  proof (cases "i = v")
    case True
    then show ?thesis
      using assms by (simp add: n add3_def vec_at_def vadd_def rd_def)
  next
    case False
    then have "i * 3 + c \<noteq> v * 3 + d" if "c < 3" "d < 3" for c d
      using that by presburger
    from this [of 0 0] this [of 0 1] this [of 0 2] this [of 1 0] this [of 1 1] this [of 1 2]
      this [of 2 0] this [of 2 1] this [of 2 2]
    show ?thesis
      using assms False by (simp add: n add3_def vec_at_def rd_def)
  qed
qed

lemma face_sum_Cons:
  "face_sum ps (t # ts) v acc = face_sum ps ts v (face_sum ps [t] v acc)"
  by (cases t) (simp add: Let_def)

lemma vec_at_accum_tri:
  assumes "ii + 2 < length (elems idx)"
    and "\<And>k. k < length (elems idx) \<Longrightarrow> elems idx ! k * 3 + 2 < length nrm"
    and "v * 3 + 2 < length nrm"
  shows "vec_at (accum_tri idx ps ii nrm) v =
         face_sum ps [(elems idx ! ii, elems idx ! (ii + 1), elems idx ! (ii + 2))] v (vec_at nrm v)"
proof -
  have r: "elems idx ! ii * 3 + 2 < length nrm" "elems idx ! (ii + 1) * 3 + 2 < length nrm"
    "elems idx ! (ii + 2) * 3 + 2 < length nrm"
    using assms(1) by (intro assms(2); simp)+
  show ?thesis
    using r assms(3) by (simp add: accum_tri_eq [OF assms(1)] vec_at_add3 Let_def)
qed

lemma drop_triple:
  assumes "ii + 2 < length xs"
  shows "drop ii xs = xs ! ii # xs ! (ii + 1) # xs ! (ii + 2) # drop (ii + 3) xs"
proof -
  have "drop ii xs = xs ! ii # drop (Suc ii) xs"
    using assms by (intro Cons_nth_drop_Suc [symmetric]) simp
  also have "drop (Suc ii) xs = xs ! Suc ii # drop (Suc (Suc ii)) xs"
    using assms by (intro Cons_nth_drop_Suc [symmetric]) simp
  also have "drop (Suc (Suc ii)) xs = xs ! Suc (Suc ii) # drop (Suc (Suc (Suc ii))) xs"
    using assms by (intro Cons_nth_drop_Suc [symmetric]) simp
  finally show ?thesis by (simp add: numeral_3_eq_3 numeral_2_eq_2)
qed

lemma length_accumulate [simp]: "length (accumulate idx ps ii nrm) = length nrm"
proof (induction idx ps ii nrm rule: accumulate.induct)
  case (1 idx ps ii nrm)
  show ?case
  proof (cases "ii < length (elems idx)")
    case True
    then show ?thesis using 1 by (subst accumulate.simps) simp
  next
    case False
    then show ?thesis by (subst accumulate.simps) simp
  qed
qed

lemma vec_at_accumulate:
  assumes "3 dvd length (elems idx)" "3 dvd ii"
    and "\<And>k. k < length (elems idx) \<Longrightarrow> elems idx ! k * 3 + 2 < length nrm"
    and "v * 3 + 2 < length nrm"
  shows "vec_at (accumulate idx ps ii nrm) v =
         face_sum ps (triangles (drop ii (elems idx))) v (vec_at nrm v)"
  using assms
proof (induction idx ps ii nrm rule: accumulate.induct)
  case (1 idx ps ii nrm)
  show ?case
  proof (cases "ii < length (elems idx)")
    case True
    have ii: "ii + 2 < length (elems idx)"
      using True "1.prems"(1,2) by presburger
    let ?t = "(elems idx ! ii, elems idx ! (ii + 1), elems idx ! (ii + 2))"
    have "vec_at (accumulate idx ps (ii + 3) (accum_tri idx ps ii nrm)) v =
          face_sum ps (triangles (drop (ii + 3) (elems idx))) v (vec_at (accum_tri idx ps ii nrm) v)"
      using True "1.prems" by (intro "1.IH") simp_all
    also have "vec_at (accum_tri idx ps ii nrm) v = face_sum ps [?t] v (vec_at nrm v)"
      using ii "1.prems"(3,4) by (rule vec_at_accum_tri)
    also have "face_sum ps (triangles (drop (ii + 3) (elems idx))) v (face_sum ps [?t] v (vec_at nrm v)) =
               face_sum ps (?t # triangles (drop (ii + 3) (elems idx))) v (vec_at nrm v)"
      by (rule face_sum_Cons [symmetric])
    also have "?t # triangles (drop (ii + 3) (elems idx)) = triangles (drop ii (elems idx))"
      by (simp add: drop_triple [OF ii])
    finally show ?thesis
      using True by (subst accumulate.simps) simp
  next
    case False
    then show ?thesis by (subst accumulate.simps) simp
  qed
qed

lemma normalize_step_vec:
  assumes "v * 3 + 2 < length nrm" "w * 3 + 2 < length nrm"
  shows "vec_at (normalize_step env w nrm) v = (if v = w then normalize_vec env (vec_at nrm v) else vec_at nrm v)"
proof (cases "v = w")
  case True
  then show ?thesis
    using assms by (simp add: normalize_step_def normalize_vec_def vec_at_def rd_def Let_def)
next
  case False
  then have "w * 3 + c \<noteq> v * 3 + d" if "c < 3" "d < 3" for c d
    using that by presburger
  from this [of 0 0] this [of 0 1] this [of 0 2] this [of 1 0] this [of 1 1] this [of 1 2]
    this [of 2 0] this [of 2 1] this [of 2 2]
  show ?thesis
    using assms False by (simp add: normalize_step_def vec_at_def rd_def Let_def)
qed

lemma length_normalize_step [simp]: "length (normalize_step env w nrm) = length nrm"
  by (simp add: normalize_step_def Let_def)

lemma normalize_fold:
  assumes "n * 3 \<le> length nrm" "v * 3 + 2 < length nrm"
  shows "length (fold (normalize_step env) [0..<n] nrm) = length nrm \<and>
         vec_at (fold (normalize_step env) [0..<n] nrm) v =
           (if v < n then normalize_vec env (vec_at nrm v) else vec_at nrm v)"
  using assms
proof (induction n)
  case 0
  then show ?case by simp
next
  case (Suc n)
  let ?xs = "fold (normalize_step env) [0..<n] nrm"
  have IH: "length ?xs = length nrm"
    "vec_at ?xs v = (if v < n then normalize_vec env (vec_at nrm v) else vec_at nrm v)"
    using Suc by simp_all
  have "vec_at (normalize_step env n ?xs) v = (if v = n then normalize_vec env (vec_at ?xs v) else vec_at ?xs v)"
    using Suc.prems IH(1) by (intro normalize_step_vec) simp_all
  then show ?case
    using IH by auto
qed

lemma vec_at_normalize:
  assumes "length nrm = V * 3" "v < V"
  shows "vec_at (normalize env V nrm) v = normalize_vec env (vec_at nrm v)"
  using normalize_fold [of V nrm v env] assms by (simp add: normalize_def)

section \<open>Builds with a resolution below the minimum\<close>

lemma clamped_update_Nr:
  assumes "eff_Nr p = 2"
  shows "clamped (p\<lparr>p_Nr := Fin 2\<rparr>) = clamped p"
proof -
  have "eff_Nr (p\<lparr>p_Nr := Fin 2\<rparr>) = 2"
    by (simp add: js_truncate_def)
  then show ?thesis
    using assms by (simp add: clamped_def)
qed

lemma clamped_update_Nu:
  assumes "eff_Nu p = 3"
  shows "clamped (p\<lparr>p_Nu := Fin 3\<rparr>) = clamped p"
proof -
  have "eff_Nu (p\<lparr>p_Nu := Fin 3\<rparr>) = 3"
    by (simp add: js_truncate_def)
  then show ?thesis
    using assms by (simp add: clamped_def)
qed

lemma build_clamped: "build env (clamped p) this = build env p this"
  by (simp add: build_eq published_clamped all_created_clamped)

lemma all_created_minimum:
  assumes "eff_Nr p = 2" "eff_Nu p = 3"
  shows "all_created env p \<longleftrightarrow>
         can_alloc env 0 72 \<and> can_alloc env 1 72 \<and> can_alloc env 2 48 \<and> can_alloc env 3 24"
  unfolding all_created_def assms can_create_def by simp

section \<open>Rounding\<close>

subsection \<open>The nearest integer\<close>

lemma round_even_cases: "round_even x = \<lfloor>x\<rfloor> \<or> round_even x = \<lfloor>x\<rfloor> + 1"
  by (simp add: round_even_def Let_def)

lemma round_even_of_int [simp]: "round_even (of_int n) = n"
  by (simp add: round_even_def)

lemma round_even_half: "\<bar>of_int (round_even x) - x\<bar> \<le> 1 / 2"
proof -
  define f where "f = \<lfloor>x\<rfloor>"
  have "of_int f \<le> x" "x < of_int f + 1" unfolding f_def by linarith+
  then show ?thesis
    unfolding round_even_def Let_def f_def [symmetric] by (simp add: abs_if)
qed

lemma round_even_le:
  assumes "x \<le> of_int k"
  shows "round_even x \<le> k"
proof (cases "x = of_int k")
  case True
  then show ?thesis by simp
next
  case False
  then have "x < of_int k" using assms by simp
  then have "\<lfloor>x\<rfloor> < k" by (simp add: floor_less_iff)
  then show ?thesis using round_even_cases [of x] by auto
qed

lemma round_even_ge:
  assumes "of_int k \<le> x"
  shows "k \<le> round_even x"
proof -
  have "k \<le> \<lfloor>x\<rfloor>" using assms by (simp add: le_floor_iff)
  then show ?thesis using round_even_cases [of x] by auto
qed

lemma round_even_unique:
  assumes "\<bar>x - of_int n\<bar> < 1 / 2"
  shows "round_even x = n"
proof -
  have "\<bar>of_int (round_even x) - of_int n :: real\<bar> < 1"
    using round_even_half [of x] assms by linarith
  then have "\<bar>round_even x - n\<bar> < 1"
    by (metis of_int_diff of_int_abs of_int_less_1_iff)
  then show ?thesis by simp
qed

lemma round_even_tie:
  "round_even (of_int n + 1 / 2) = (if even n then n else n + 1)"
proof -
  have "\<lfloor>of_int n + 1 / 2 :: real\<rfloor> = n" by linarith
  then show ?thesis by (simp add: round_even_def)
qed

lemma round_even_minus: "round_even (- x) = - round_even x"
proof (cases "x = of_int \<lfloor>x\<rfloor>")
  case True
  then obtain n where "x = of_int n" ..
  then show ?thesis by (simp flip: of_int_minus)
next
  case False
  then have f: "\<lfloor>- x\<rfloor> = - \<lfloor>x\<rfloor> - 1"
    by (metis ceiling_altdef ceiling_def add_diff_cancel_right' minus_diff_eq minus_add_distrib uminus_add_conv_diff)
  show ?thesis
    unfolding round_even_def Let_def f by (auto simp: algebra_simps)
qed

subsection \<open>Binades\<close>

lemma floor_log2_bounds:
  assumes "0 < x"
  shows "2 powr of_int \<lfloor>log 2 x\<rfloor> \<le> x" "x < 2 powr of_int (\<lfloor>log 2 x\<rfloor> + 1)"
proof -
  have "of_int \<lfloor>log 2 x\<rfloor> \<le> log 2 x" by simp
  then have "2 powr of_int \<lfloor>log 2 x\<rfloor> \<le> 2 powr log 2 x"
    by (simp only: powr_le_cancel_iff [of 2] one_less_numeral_iff semiring_norm)
  then show "2 powr of_int \<lfloor>log 2 x\<rfloor> \<le> x" using assms by simp
  have "log 2 x < of_int (\<lfloor>log 2 x\<rfloor> + 1)" by linarith
  then have "2 powr log 2 x < 2 powr of_int (\<lfloor>log 2 x\<rfloor> + 1)"
    by (simp only: powr_less_cancel_iff [of 2] one_less_numeral_iff semiring_norm)
  then show "x < 2 powr of_int (\<lfloor>log 2 x\<rfloor> + 1)" using assms by simp
qed

lemma floor_log2_eq:
  assumes "2 powr of_int e \<le> x" "x < 2 powr of_int (e + 1)"
  shows "\<lfloor>log 2 x\<rfloor> = e"
proof -
  have x: "0 < x" using assms(1) by (rule less_le_trans [rotated]) simp
  have "of_int e \<le> log 2 x"
    using assms(1) x by (simp add: le_log_iff)
  moreover have "log 2 x < of_int (e + 1)"
    using assms(2) x by (simp add: log_less_iff)
  ultimately show ?thesis by linarith
qed

lemma two_powr_int:
  "2 powr of_int k = (if 0 \<le> k then 2 ^ nat k else 1 / 2 ^ nat (- k) :: real)"
proof (cases "0 \<le> k")
  case True
  then have "of_int k = real (nat k)" by simp
  then show ?thesis using True by (simp only: powr_realpow zero_less_numeral if_True)
next
  case False
  then have "of_int k = - real (nat (- k))" by simp
  then show ?thesis using False
    by (simp only: powr_minus powr_realpow zero_less_numeral if_False inverse_eq_divide)
qed

lemma two_powr_add: "2 powr of_int (a + b) = 2 powr of_int a * (2 powr of_int b :: real)"
  by (simp add: powr_add)

lemma two_powr_diff: "2 powr of_int (a - b) = 2 powr of_int a / (2 powr of_int b :: real)"
  by (simp add: powr_diff)

lemma two_powr_mono: "a \<le> b \<Longrightarrow> 2 powr of_int a \<le> (2 powr of_int b :: real)"
  by simp

lemma two_powr_nat: "2 powr of_int (int n) = (2 ^ n :: real)"
  by (simp add: powr_realpow)

subsection \<open>The nearest value of a format\<close>

lemma quantum_pos [simp]: "0 < quantum p emin x"
  by (simp add: quantum_def)

lemma quantum_minus [simp]: "quantum p emin (- x) = quantum p emin x"
  by (simp add: quantum_def)

lemma nearest_zero [simp]: "nearest p emin 0 = 0"
  by (simp add: nearest_def round_even_def)

lemma nearest_minus: "nearest p emin (- x) = - nearest p emin x"
  by (simp add: nearest_def round_even_minus)

lemma nearest_err: "\<bar>nearest p emin x - x\<bar> \<le> quantum p emin x / 2"
proof -
  define Q where "Q = quantum p emin x"
  have Q: "0 < Q" by (simp add: Q_def)
  have "\<bar>of_int (round_even (x / Q)) - x / Q\<bar> * Q \<le> 1 / 2 * Q"
    using round_even_half [of "x / Q"] Q by (intro mult_right_mono) simp_all
  moreover have "\<bar>of_int (round_even (x / Q)) - x / Q\<bar> * Q = \<bar>of_int (round_even (x / Q)) * Q - x\<bar>"
  proof -
    have "\<bar>of_int (round_even (x / Q)) - x / Q\<bar> * Q = \<bar>(of_int (round_even (x / Q)) - x / Q) * Q\<bar>"
      using Q by (simp add: abs_mult)
    also have "(of_int (round_even (x / Q)) - x / Q) * Q = of_int (round_even (x / Q)) * Q - x"
      using Q by (simp add: left_diff_distrib)
    finally show ?thesis .
  qed
  ultimately have "\<bar>of_int (round_even (x / Q)) * Q - x\<bar> \<le> 1 / 2 * Q"
    by (simp only:)
  then show ?thesis
    by (simp add: nearest_def Q_def)
qed

lemma quantum_binade:
  assumes "x \<noteq> 0" "e = max emin \<lfloor>log 2 \<bar>x\<bar>\<rfloor>"
  shows "quantum p emin x = 2 powr of_int (e - int p + 1)"
    and "\<bar>x\<bar> < 2 powr of_int (e + 1)"
    and "emin < e \<Longrightarrow> 2 powr of_int e \<le> \<bar>x\<bar>"
    and "emin \<le> \<lfloor>log 2 \<bar>x\<bar>\<rfloor> \<Longrightarrow> 2 powr of_int e \<le> \<bar>x\<bar>"
proof -
  have x: "0 < \<bar>x\<bar>" using assms(1) by simp
  show "quantum p emin x = 2 powr of_int (e - int p + 1)"
    by (simp add: quantum_def assms(2))
  have "\<bar>x\<bar> < 2 powr of_int (\<lfloor>log 2 \<bar>x\<bar>\<rfloor> + 1)"
    by (rule floor_log2_bounds(2) [OF x])
  also have "\<dots> \<le> 2 powr of_int (e + 1)"
    by (rule two_powr_mono) (simp add: assms(2))
  finally show "\<bar>x\<bar> < 2 powr of_int (e + 1)" .
  show "2 powr of_int e \<le> \<bar>x\<bar>" if "emin \<le> \<lfloor>log 2 \<bar>x\<bar>\<rfloor>"
  proof -
    have "e = \<lfloor>log 2 \<bar>x\<bar>\<rfloor>" using that assms(2) by simp
    then show ?thesis using floor_log2_bounds(1) [OF x] by simp
  qed
  then show "2 powr of_int e \<le> \<bar>x\<bar>" if "emin < e"
    using that assms(2) by simp
qed

lemma nearest_grid_le:
  assumes "x \<le> of_int n * 2 powr of_int k" "\<bar>n\<bar> < 2 ^ p" "emin - int p + 1 \<le> k" "0 < p"
  shows "nearest p emin x \<le> of_int n * 2 powr of_int k"
proof (cases "x = 0")
  case True
  then show ?thesis using assms(1) by simp
next
  case False
  define e where "e = max emin \<lfloor>log 2 \<bar>x\<bar>\<rfloor>"
  define q where "q = e - int p + 1"
  define b :: real where "b = of_int n * 2 powr of_int k"
  note B = quantum_binade [OF False e_def]
  have Q: "quantum p emin x = 2 powr of_int q" by (simp add: B(1) q_def)
  have N: "nearest p emin x = of_int (round_even (x / 2 powr of_int q)) * 2 powr of_int q"
    by (simp add: nearest_def Q)
  have xb: "x \<le> b" using assms(1) by (simp add: b_def)
  show ?thesis
  proof (cases "q \<le> k")
    case True
    have "2 powr of_int k = 2 powr of_int (k - q) * (2 powr of_int q :: real)"
      by (simp flip: powr_add)
    also have "2 powr of_int (k - q) = (2 ^ nat (k - q) :: real)"
      using True by (simp only: two_powr_int [of "k - q"]) simp
    finally have b: "b = of_int (n * 2 ^ nat (k - q)) * 2 powr of_int q"
      by (simp add: b_def)
    have "x / 2 powr of_int q \<le> of_int (n * 2 ^ nat (k - q))"
      using xb unfolding b by (simp add: pos_divide_le_eq)
    then have "round_even (x / 2 powr of_int q) \<le> n * 2 ^ nat (k - q)"
      by (rule round_even_le)
    then have "(of_int (round_even (x / 2 powr of_int q)) :: real) \<le> of_int (n * 2 ^ nat (k - q))"
      by (simp only: of_int_le_iff)
    then have "nearest p emin x \<le> b"
      unfolding N b by (rule mult_right_mono) simp
    then show ?thesis by (simp add: b_def)
  next
    case False
    then have ke: "int p + k \<le> e" and ee: "emin < e"
      using assms(3) by (simp_all add: q_def)
    have "\<bar>b\<bar> = of_int \<bar>n\<bar> * 2 powr of_int k"
      by (simp add: b_def abs_mult)
    also have "\<dots> < 2 ^ p * 2 powr of_int k"
    proof (rule mult_strict_right_mono)
      have "(of_int \<bar>n\<bar> :: real) < of_int (2 ^ p)"
        using assms(2) by (simp only: of_int_less_iff)
      then show "(of_int \<bar>n\<bar> :: real) < 2 ^ p" by simp
    qed simp
    also have "\<dots> = 2 powr of_int (int p + k)"
      by (simp add: powr_add powr_realpow)
    also have "\<dots> \<le> 2 powr of_int e"
      by (rule two_powr_mono) (rule ke)
    finally have be: "\<bar>b\<bar> < 2 powr of_int e" .
    have xe: "2 powr of_int e \<le> \<bar>x\<bar>" by (rule B(3) [OF ee])
    have neg: "x \<le> - (2 powr of_int e)"
      using xb be xe by linarith
    have "2 powr of_int e = 2 powr of_int (int p - 1) * (2 powr of_int q :: real)"
      by (simp add: q_def flip: powr_add)
    also have "2 powr of_int (int p - 1) = (2 ^ (p - 1) :: real)"
      using assms(4) two_powr_nat [of "p - 1"] by (simp add: of_nat_diff)
    finally have e2: "2 powr of_int e = of_int (2 ^ (p - 1)) * (2 powr of_int q :: real)"
      by simp
    have "x / 2 powr of_int q \<le> of_int (- (2 ^ (p - 1)))"
      using neg unfolding e2 by (simp add: pos_divide_le_eq)
    then have "round_even (x / 2 powr of_int q) \<le> - (2 ^ (p - 1))"
      by (rule round_even_le)
    then have "(of_int (round_even (x / 2 powr of_int q)) :: real) \<le> of_int (- (2 ^ (p - 1)))"
      by (simp only: of_int_le_iff)
    then have "nearest p emin x \<le> of_int (- (2 ^ (p - 1))) * 2 powr of_int q"
      unfolding N by (rule mult_right_mono) simp
    also have "\<dots> = - (2 powr of_int e)"
      unfolding e2 by simp
    finally have "nearest p emin x \<le> b" using be by linarith
    then show ?thesis by (simp add: b_def)
  qed
qed

lemma nearest_grid_ge:
  assumes "of_int n * 2 powr of_int k \<le> x" "\<bar>n\<bar> < 2 ^ p" "emin - int p + 1 \<le> k" "0 < p"
  shows "of_int n * 2 powr of_int k \<le> nearest p emin x"
proof -
  have "nearest p emin (- x) \<le> of_int (- n) * 2 powr of_int k"
    using assms by (intro nearest_grid_le) simp_all
  then show ?thesis by (simp add: nearest_minus)
qed

lemma nearest_exact:
  assumes "\<bar>n\<bar> < 2 ^ p" "emin - int p + 1 \<le> k" "0 < p"
  shows "nearest p emin (of_int n * 2 powr of_int k) = of_int n * 2 powr of_int k"
  using nearest_grid_le [OF order_refl assms] nearest_grid_ge [OF order_refl assms]
  by (rule antisym)

subsection \<open>Representable values\<close>

lemma representableI:
  assumes "x = of_int n * 2 powr of_int k" "\<bar>n\<bar> < 2 ^ p" "emin - int p + 1 \<le> k"
    "\<bar>x\<bar> < 2 powr of_int (emax + 1)"
  shows "representable p emin emax x"
  unfolding representable_def using assms by blast

lemma representable_zero [simp]: "representable p emin emax 0"
  by (rule representableI [of _ 0 "emin - int p + 1"]) simp_all

lemma representable_minus [simp]:
  "representable p emin emax (- x) \<longleftrightarrow> representable p emin emax x"
proof -
  have "representable p emin emax (- y)" if "representable p emin emax y" for y
  proof -
    from that obtain n k where "y = of_int n * 2 powr of_int k" "\<bar>n\<bar> < 2 ^ p"
      "emin - int p + 1 \<le> k" "\<bar>y\<bar> < 2 powr of_int (emax + 1)"
      unfolding representable_def by blast
    then show ?thesis
      by (intro representableI [of _ "- n" k]) simp_all
  qed
  from this [of x] this [of "- x"] show ?thesis by auto
qed

lemma nearest_between:
  assumes "representable p emin emax a" "representable p emin emax b" "a \<le> x" "x \<le> b" "0 < p"
  shows "a \<le> nearest p emin x" "nearest p emin x \<le> b"
proof -
  from assms(1) obtain n k where "a = of_int n * 2 powr of_int k" "\<bar>n\<bar> < 2 ^ p"
    "emin - int p + 1 \<le> k"
    unfolding representable_def by blast
  then show "a \<le> nearest p emin x"
    using nearest_grid_ge [of n k x p emin] assms(3,5) by simp
  from assms(2) obtain n k where "b = of_int n * 2 powr of_int k" "\<bar>n\<bar> < 2 ^ p"
    "emin - int p + 1 \<le> k"
    unfolding representable_def by blast
  then show "nearest p emin x \<le> b"
    using nearest_grid_le [of x n k p emin] assms(4,5) by simp
qed

lemma fp_round_between:
  assumes "representable p emin emax a" "representable p emin emax b" "a \<le> x" "x \<le> b" "0 < p"
  shows "fp_round p emin emax x = Fin (nearest p emin x)"
    and "a \<le> nearest p emin x" and "nearest p emin x \<le> b"
proof -
  note n = nearest_between [OF assms]
  show "a \<le> nearest p emin x" "nearest p emin x \<le> b" by (rule n)+
  have "\<bar>a\<bar> < 2 powr of_int (emax + 1)" "\<bar>b\<bar> < 2 powr of_int (emax + 1)"
    using assms(1,2) unfolding representable_def by blast+
  then have "\<bar>nearest p emin x\<bar> < 2 powr of_int (emax + 1)"
    using n by linarith
  then show "fp_round p emin emax x = Fin (nearest p emin x)"
    by (simp add: fp_round_def)
qed

lemma fp_round_exact:
  assumes "representable p emin emax x" "0 < p"
  shows "fp_round p emin emax x = Fin x"
  using fp_round_between [OF assms(1) assms(1) order_refl order_refl assms(2)] by simp

lemma nearest_representable:
  assumes "\<bar>nearest p emin x\<bar> < 2 powr of_int (emax + 1)" "0 < p"
  shows "representable p emin emax (nearest p emin x)"
proof (cases "x = 0")
  case True
  then show ?thesis by simp
next
  case False
  define e where "e = max emin \<lfloor>log 2 \<bar>x\<bar>\<rfloor>"
  define q where "q = e - int p + 1"
  define N where "N = round_even (x / 2 powr of_int q)"
  note B = quantum_binade [OF False e_def]
  have Q: "quantum p emin x = 2 powr of_int q" by (simp add: B(1) q_def)
  have y: "nearest p emin x = of_int N * 2 powr of_int q"
    by (simp add: nearest_def Q N_def)
  have "2 powr of_int (e + 1) = 2 powr of_int (int p) * (2 powr of_int q :: real)"
    by (simp add: q_def flip: powr_add)
  also have "2 powr of_int (int p) = (of_int (2 ^ p) :: real)"
    by (simp add: powr_realpow)
  finally have e2: "2 powr of_int (e + 1) = of_int (2 ^ p) * (2 powr of_int q :: real)" .
  have "\<bar>x\<bar> \<le> of_int (2 ^ p) * 2 powr of_int q"
    using B(2) unfolding e2 by simp
  then have "x / 2 powr of_int q \<le> of_int (2 ^ p)" "of_int (- (2 ^ p)) \<le> x / 2 powr of_int q"
    by (simp_all add: pos_divide_le_eq pos_le_divide_eq abs_le_iff)
  then have "N \<le> 2 ^ p" "- (2 ^ p) \<le> N"
    unfolding N_def using round_even_le round_even_ge by blast+
  then consider "\<bar>N\<bar> < 2 ^ p" | "N = 2 ^ p" | "N = - (2 ^ p)"
    by linarith
  then show ?thesis
  proof cases
    case 1
    then show ?thesis
      using assms(1) by (intro representableI [of _ N q]) (simp_all add: y q_def e_def)
  next
    case 2
    have "nearest p emin x = of_int 1 * 2 powr of_int (e + 1)"
      unfolding y e2 2 by simp
    moreover have "(1 :: int) < 2 ^ p" using assms(2) by (simp add: one_less_power)
    ultimately show ?thesis
      using assms(1) by (intro representableI [of _ 1 "e + 1"]) (simp_all add: e_def)
  next
    case 3
    have "nearest p emin x = of_int (- 1) * 2 powr of_int (e + 1)"
      unfolding y e2 3 by simp
    moreover have "(1 :: int) < 2 ^ p" using assms(2) by (simp add: one_less_power)
    ultimately show ?thesis
      using assms(1) by (intro representableI [of _ "- 1" "e + 1"]) (simp_all add: e_def)
  qed
qed

lemma fp_round_representable:
  assumes "fp_round p emin emax x = Fin y" "0 < p"
  shows "representable p emin emax y" "y = nearest p emin x"
proof -
  show y: "y = nearest p emin x"
    using assms(1) by (cases "x = 0") (auto simp: fp_round_def inf_signed_def split: if_splits)
  show "representable p emin emax y"
  proof (cases "x = 0")
    case True
    then show ?thesis using y by simp
  next
    case False
    then have "\<bar>nearest p emin x\<bar> < 2 powr of_int (emax + 1)"
      using assms(1) by (auto simp: fp_round_def inf_signed_def split: if_splits)
    then show ?thesis unfolding y using assms(2) by (rule nearest_representable)
  qed
qed

lemma fp_round_idem:
  assumes "fp_round p emin emax x = Fin y" "0 < p"
  shows "fp_round p emin emax y = Fin y"
  using fp_round_representable(1) [OF assms] assms(2) by (rule fp_round_exact)

lemma fp_round_err:
  assumes "fp_round p emin emax x = Fin y" "0 < p"
  shows "\<bar>y - x\<bar> \<le> quantum p emin x / 2"
  using nearest_err [of p emin x] fp_round_representable(2) [OF assms] by simp

lemma quantum_le:
  assumes "x \<noteq> 0" "\<bar>x\<bar> < 2 powr of_int (E + 1)" "emin \<le> E"
  shows "quantum p emin x \<le> 2 powr of_int (E - int p + 1)"
proof -
  have "log 2 \<bar>x\<bar> < of_int (E + 1)"
    using assms(1,2) by (simp add: log_less_iff)
  then have "\<lfloor>log 2 \<bar>x\<bar>\<rfloor> \<le> E" by linarith
  then have "max emin \<lfloor>log 2 \<bar>x\<bar>\<rfloor> - int p + 1 \<le> E - int p + 1"
    using assms(3) by simp
  then show ?thesis
    unfolding quantum_def by (rule two_powr_mono)
qed

lemma quantum_rel:
  assumes "2 powr of_int emin \<le> \<bar>x\<bar>"
  shows "quantum p emin x \<le> \<bar>x\<bar> * 2 powr of_int (1 - int p)"
proof -
  have x: "0 < \<bar>x\<bar>" using assms by (rule less_le_trans [rotated]) simp
  have "of_int emin \<le> log 2 \<bar>x\<bar>"
    using assms x by (simp add: le_log_iff)
  then have "emin \<le> \<lfloor>log 2 \<bar>x\<bar>\<rfloor>" by (simp add: le_floor_iff)
  then have "quantum p emin x = 2 powr of_int \<lfloor>log 2 \<bar>x\<bar>\<rfloor> * 2 powr of_int (1 - int p)"
    by (simp add: quantum_def max_def flip: powr_add) (simp add: algebra_simps)
  also have "\<dots> \<le> \<bar>x\<bar> * 2 powr of_int (1 - int p)"
    using floor_log2_bounds(1) [OF x] by (intro mult_right_mono) simp_all
  finally show ?thesis .
qed

lemma nearest_compute:
  assumes "2 powr of_int E \<le> \<bar>x\<bar>" "\<bar>x\<bar> < 2 powr of_int (E + 1)" "emin \<le> E"
  shows "nearest p emin x =
         of_int (round_even (x / 2 powr of_int (E - int p + 1))) * 2 powr of_int (E - int p + 1)"
proof -
  have "\<lfloor>log 2 \<bar>x\<bar>\<rfloor> = E"
    using assms(1,2) by (rule floor_log2_eq)
  then have "quantum p emin x = 2 powr of_int (E - int p + 1)"
    using assms(3) by (simp add: quantum_def max_def)
  then show ?thesis by (simp add: nearest_def)
qed

lemma fp_round_compute:
  assumes "2 powr of_int E \<le> \<bar>x\<bar>" "\<bar>x\<bar> < 2 powr of_int (E + 1)" "emin \<le> E" "E < emax"
    and "0 < p"
  shows "fp_round p emin emax x =
         Fin (of_int (round_even (x / 2 powr of_int (E - int p + 1))) * 2 powr of_int (E - int p + 1))"
proof -
  have "(1 :: int) < 2 ^ p" using assms(5) by (simp add: one_less_power)
  then have a: "representable p emin emax (- (2 powr of_int (E + 1)))"
    using assms(3,4) by (intro representableI [of _ "- 1" "E + 1"]) simp_all
  then have b: "representable p emin emax (2 powr of_int (E + 1))"
    by simp
  have "- (2 powr of_int (E + 1)) \<le> x" "x \<le> 2 powr of_int (E + 1)"
    using assms(2) by linarith+
  from fp_round_between(1) [OF a b this assms(5)] show ?thesis
    by (simp only: nearest_compute [OF assms(1-3)])
qed

subsection \<open>Doubles and single precision values\<close>

lemma d64_exact: "representable 53 (- 1022) 1023 x \<Longrightarrow> d64 x = Fin x"
  by (simp add: d64_def fp_round_exact)

lemma fround_exact: "representable 24 (- 126) 127 x \<Longrightarrow> fround (Fin x) = Fin x"
  by (simp add: fp_round_exact)

lemma d64_idem: "d64 x = Fin y \<Longrightarrow> d64 y = Fin y"
  unfolding d64_def by (rule fp_round_idem) simp_all

lemma double_of_int:
  assumes "\<bar>n\<bar> < 2 ^ 53"
  shows "representable 53 (- 1022) 1023 (of_int n)"
proof (rule representableI [of _ n 0])
  have "\<bar>of_int n :: real\<bar> = of_int \<bar>n\<bar>" by simp
  also have "\<dots> < of_int (2 ^ 53)" using assms by (simp only: of_int_less_iff)
  also have "\<dots> < 2 powr of_int (1023 + 1)" by simp
  finally show "\<bar>of_int n :: real\<bar> < 2 powr of_int (1023 + 1)" .
qed (use assms in simp_all)

lemma single_of_int:
  assumes "\<bar>n\<bar> < 2 ^ 24"
  shows "representable 24 (- 126) 127 (of_int n)"
proof (rule representableI [of _ n 0])
  have "\<bar>of_int n :: real\<bar> = of_int \<bar>n\<bar>" by simp
  also have "\<dots> < of_int (2 ^ 24)" using assms by (simp only: of_int_less_iff)
  also have "\<dots> < 2 powr of_int (127 + 1)" by simp
  finally show "\<bar>of_int n :: real\<bar> < 2 powr of_int (127 + 1)" .
qed (use assms in simp_all)

lemma d64_unit:
  assumes "1 / 2 ^ 31 \<le> x" "x \<le> 1"
  shows "\<exists>y. d64 x = Fin y \<and> 1 / 2 ^ 31 \<le> y \<and> y \<le> 1 \<and> \<bar>y - x\<bar> \<le> 1 / 2 ^ 53"
proof -
  have a: "representable 53 (- 1022) 1023 (1 / 2 ^ 31)"
    by (rule representableI [of _ 1 "- 31"]) (simp_all add: powr_minus_divide)
  have b: "representable 53 (- 1022) 1023 1"
    using double_of_int [of 1] by simp
  note r = fp_round_between [OF a b assms, of ]
  have d: "d64 x = Fin (nearest 53 (- 1022) x)"
    unfolding d64_def by (rule r) simp
  have "x \<noteq> 0" using assms(1) by (auto simp: not_le [symmetric])
  then have "quantum 53 (- 1022) x \<le> 2 powr of_int (0 - int 53 + 1)"
    using assms by (intro quantum_le) simp_all
  then have "quantum 53 (- 1022) x / 2 \<le> 1 / 2 ^ 53" by (simp add: powr_minus_divide)
  then have "\<bar>nearest 53 (- 1022) x - x\<bar> \<le> 1 / 2 ^ 53"
    using nearest_err [of 53 "- 1022" x] by linarith
  then show ?thesis using d r(2,3) by simp
qed

lemma fround_unit:
  assumes "1 / 2 ^ 31 \<le> x" "x \<le> 1"
  shows "\<exists>y. fround (Fin x) = Fin y \<and> 1 / 2 ^ 31 \<le> y \<and> y \<le> 1 \<and> \<bar>y - x\<bar> \<le> 1 / 2 ^ 24"
proof -
  have a: "representable 24 (- 126) 127 (1 / 2 ^ 31)"
    by (rule representableI [of _ 1 "- 31"]) (simp_all add: powr_minus_divide)
  have b: "representable 24 (- 126) 127 1"
    using single_of_int [of 1] by simp
  note r = fp_round_between [OF a b assms]
  have d: "fround (Fin x) = Fin (nearest 24 (- 126) x)"
    unfolding fround.simps by (rule r) simp
  have "x \<noteq> 0" using assms(1) by (auto simp: not_le [symmetric])
  then have "quantum 24 (- 126) x \<le> 2 powr of_int (0 - int 24 + 1)"
    using assms by (intro quantum_le) simp_all
  then have "quantum 24 (- 126) x / 2 \<le> 1 / 2 ^ 24" by (simp add: powr_minus_divide)
  then have "\<bar>nearest 24 (- 126) x - x\<bar> \<le> 1 / 2 ^ 24"
    using nearest_err [of 24 "- 126" x] by linarith
  then show ?thesis using d r(2,3) by simp
qed

lemma below_one_representable:
  "representable 53 (- 1022) 1023 (1 - 1 / 2 ^ 24)" "representable 24 (- 126) 127 (1 - 1 / 2 ^ 24)"
proof -
  have "(1 - 1 / 2 ^ 24 :: real) = of_int 16777215 * 2 powr of_int (- 24)"
    by (simp add: powr_minus_divide)
  then show "representable 53 (- 1022) 1023 (1 - 1 / 2 ^ 24)"
    "representable 24 (- 126) 127 (1 - 1 / 2 ^ 24)"
    by (rule representableI; simp)+
qed

lemma stored_fraction:
  assumes "k \<le> n" "0 < n" "n < 2 ^ 31"
  shows "\<exists>y. fround (jdiv (Fin (real k)) (Fin (real n))) = Fin y \<and>
             0 \<le> y \<and> y \<le> 1 \<and> (y = 0 \<longleftrightarrow> k = 0) \<and> (k = n \<longrightarrow> y = 1) \<and>
             (n \<le> 2 ^ 24 \<longrightarrow> k < n \<longrightarrow> y < 1) \<and>
             \<bar>y - real k / real n\<bar> \<le> 1 / 2 ^ 23"
proof (cases "k = 0")
  case True
  then show ?thesis using assms(2) by (simp add: d64_def fp_round_def)
next
  case False
  define x where "x = real k / real n"
  have j: "jdiv (Fin (real k)) (Fin (real n)) = d64 x"
    using assms(2) by (simp add: x_def)
  have "real n < 2 ^ 31"
    using assms(3) by (metis of_nat_less_iff of_nat_numeral of_nat_power)
  then have "1 / 2 ^ 31 \<le> 1 / real n"
    using assms(2) by (intro divide_left_mono) simp_all
  also have "\<dots> \<le> x"
    using False assms(2) by (simp add: x_def divide_right_mono)
  finally have lo: "1 / 2 ^ 31 \<le> x" .
  have hi: "x \<le> 1" using assms(1,2) by (simp add: x_def)
  from d64_unit [OF lo hi] obtain y1 where y1: "d64 x = Fin y1" "1 / 2 ^ 31 \<le> y1" "y1 \<le> 1"
    "\<bar>y1 - x\<bar> \<le> 1 / 2 ^ 53" by blast
  from fround_unit [OF y1(2,3)] obtain y where y: "fround (Fin y1) = Fin y" "1 / 2 ^ 31 \<le> y"
    "y \<le> 1" "\<bar>y - y1\<bar> \<le> 1 / 2 ^ 24" by blast
  have pos: "0 < y" using y(2) by (rule less_le_trans [rotated]) simp
  have one: "y = 1" if "k = n"
  proof -
    have "x = 1" using that assms(2) by (simp add: x_def)
    then have "y1 = 1" using y1(1) d64_exact [OF double_of_int [of 1]] by simp
    then show ?thesis using y(1) fround_exact [OF single_of_int [of 1]] by simp
  qed
  have less: "y < 1" if "n \<le> 2 ^ 24" "k < n"
  proof -
    have "real k + 1 \<le> real n" using that(2) by linarith
    then have "x \<le> 1 - 1 / real n"
      using assms(2) by (simp add: x_def field_simps)
    moreover have "real n \<le> 2 ^ 24"
      using that(1) by (metis of_nat_le_iff of_nat_numeral of_nat_power)
    then have "1 / 2 ^ 24 \<le> 1 / real n"
      using assms(2) by (intro divide_left_mono) simp_all
    ultimately have xc: "x \<le> 1 - 1 / 2 ^ 24" by linarith
    have "nearest 53 (- 1022) x \<le> 1 - 1 / 2 ^ 24"
      by (rule nearest_between(2) [OF representable_zero below_one_representable(1) _ xc])
        (use lo in \<open>simp_all add: order_trans [rotated]\<close>)
    moreover have "y1 = nearest 53 (- 1022) x"
      using y1(1) unfolding d64_def by (rule fp_round_representable(2)) simp
    ultimately have yc: "y1 \<le> 1 - 1 / 2 ^ 24" by simp
    have "nearest 24 (- 126) y1 \<le> 1 - 1 / 2 ^ 24"
      by (rule nearest_between(2) [OF representable_zero below_one_representable(2) _ yc])
        (use y1(2) in \<open>simp_all add: order_trans [rotated]\<close>)
    moreover have "y = nearest 24 (- 126) y1"
      using y(1) unfolding fround.simps by (rule fp_round_representable(2)) simp
    ultimately show ?thesis by simp
  qed
  have "\<bar>y - x\<bar> \<le> 1 / 2 ^ 24 + 1 / 2 ^ 53"
    using y(4) y1(4) by linarith
  then have "\<bar>y - x\<bar> \<le> 1 / 2 ^ 23" by simp
  then show ?thesis
    using j y1(1) y(1,3) pos one less False by (auto simp: x_def)
qed

section \<open>Stored vertex values\<close>

lemma position_at:
  assumes "i < eff_Nr p" "j < eff_Nu p" "c < 3"
  shows "positions (published env p this) ! (3 * (i * eff_Nu p + j) + c) =
         stored3 (surfacePoint env (r_of p (eff_Nr p) i) (u_of (eff_Nu p) j) p) ! c"
  using grid_pos_nth [OF assms] by (simp add: positions_published)

lemma texcoord_at:
  assumes "i < eff_Nr p" "j < eff_Nu p" "c < 2"
  shows "texcoords (published env p this) ! (2 * (i * eff_Nu p + j) + c) =
         [fround (s_of (eff_Nu p) j), fround (t_of (eff_Nr p) i)] ! c"
  using grid_uv_nth [OF assms] by (simp add: texcoords_published)

lemma s_of_fraction: "3 \<le> Nu \<Longrightarrow> s_of Nu j = jdiv (Fin (real j)) (Fin (real (Nu - 1)))"
  by (simp add: s_of_def of_nat_diff)

lemma t_of_fraction: "2 \<le> Nr \<Longrightarrow> t_of Nr i = jdiv (Fin (real i)) (Fin (real (Nr - 1)))"
  by (simp add: t_of_def of_nat_diff)

section \<open>Some rounded values\<close>

lemma d64_half: "d64 (1 / 2) = Fin (1 / 2)"
  by (rule d64_exact, rule representableI [of _ 1 "- 1"]) (simp_all add: powr_minus_divide)

lemma single_half: "fp_round 24 (- 126) 127 (1 / 2) = Fin (1 / 2)"
  by (rule fp_round_exact, rule representableI [of _ 1 "- 1"]) (simp_all add: powr_minus_divide)

lemma fround_tie: "fround (d64 (33554431 / 33554432)) = Fin 1"
proof -
  have "representable 53 (- 1022) 1023 (33554431 / 33554432)"
    by (rule representableI [of _ 33554431 "- 25"]) (simp_all add: powr_minus_divide)
  then have d: "d64 (33554431 / 33554432) = Fin (33554431 / 33554432)"
    by (rule d64_exact)
  have q: "(33554431 / 33554432) / 2 powr of_int (- 1 - int 24 + 1) = (of_int 16777215 + 1 / 2 :: real)"
    by (simp add: powr_minus_divide)
  have "fp_round 24 (- 126) 127 (33554431 / 33554432) =
        Fin (of_int (round_even ((33554431 / 33554432) / 2 powr of_int (- 1 - int 24 + 1))) *
          2 powr of_int (- 1 - int 24 + 1))"
    by (rule fp_round_compute) (simp_all add: powr_minus_divide)
  also have "\<dots> = Fin 1"
    unfolding q round_even_tie by (simp add: powr_minus_divide)
  finally show ?thesis by (simp add: d)
qed

lemma fround_third: "fround (d64 (1 / 3)) = Fin (11184811 / 33554432)"
proof -
  have "round_even ((1 / 3) / 2 powr of_int (- 2 - int 53 + 1)) = 6004799503160661"
    by (rule round_even_unique) (simp add: powr_minus_divide)
  moreover have "fp_round 53 (- 1022) 1023 (1 / 3) =
        Fin (of_int (round_even ((1 / 3) / 2 powr of_int (- 2 - int 53 + 1))) *
          2 powr of_int (- 2 - int 53 + 1))"
    by (rule fp_round_compute) (simp_all add: powr_minus_divide)
  ultimately have d: "d64 (1 / 3) = Fin (6004799503160661 / 18014398509481984)"
    by (simp add: d64_def powr_minus_divide)
  have "round_even ((6004799503160661 / 18014398509481984) / 2 powr of_int (- 2 - int 24 + 1)) = 11184811"
    by (rule round_even_unique) (simp add: powr_minus_divide)
  moreover have "fp_round 24 (- 126) 127 (6004799503160661 / 18014398509481984) =
        Fin (of_int (round_even ((6004799503160661 / 18014398509481984) / 2 powr of_int (- 2 - int 24 + 1))) *
          2 powr of_int (- 2 - int 24 + 1))"
    by (rule fp_round_compute) (simp_all add: powr_minus_divide)
  ultimately show ?thesis
    by (simp add: d powr_minus_divide)
qed

section \<open>Buffer sizes\<close>

text \<open>
  Claim C1. Whatever the resolution in the parameters, a build that returns has produced
  buffers for the clamped dimensions \<open>Nr = eff_Nr p\<close> and \<open>Nu = eff_Nu p\<close>: the
  position buffer has \<open>3 * Nr * Nu\<close> entries, the texture coordinate buffer
  \<open>2 * Nr * Nu\<close>, the index buffer \<open>6 * (Nr - 1) * (Nu - 1)\<close>, and the field
  \<^verbatim>\<open>indexCount\<close> is the length of the index buffer. A build returns exactly when the
  engine provides its four blocks.
\<close>

theorem build_buffer_lengths:
  "((\<exists>M. build env p this = Inr M) \<longleftrightarrow> all_created env p) \<and>
   (build env p this = Inr M \<longrightarrow>
      length (positions M) = 3 * eff_Nr p * eff_Nu p \<and>
      length (texcoords M) = 2 * eff_Nr p * eff_Nu p \<and>
      map_option (length \<circ> elems) (indices M) = Some (6 * (eff_Nr p - 1) * (eff_Nu p - 1)) \<and>
      indexCount M = 6 * (eff_Nr p - 1) * (eff_Nu p - 1))"
proof -
  have "(\<exists>M. build env p this = Inr M) \<longleftrightarrow> all_created env p"
    by (simp add: build_eq)
  moreover have "length (positions M) = 3 * eff_Nr p * eff_Nu p \<and>
      length (texcoords M) = 2 * eff_Nr p * eff_Nu p \<and>
      map_option (length \<circ> elems) (indices M) = Some (6 * (eff_Nr p - 1) * (eff_Nu p - 1)) \<and>
      indexCount M = 6 * (eff_Nr p - 1) * (eff_Nu p - 1)" if "build env p this = Inr M"
  proof -
    have M: "M = published env p this" using that by (rule build_InrD)
    show ?thesis
      unfolding M published_def
      by (simp add: pos_vertex_buffers uv_vertex_buffers length_index_buffer mult.commute mult.left_commute)
  qed
  ultimately show ?thesis by blast
qed

theorem build_buffer_lengths_witness:
  "build generous (main_params\<lparr>p_Nr := Fin 2, p_Nu := Fin 4\<rparr>) new_model =
     Inr (published generous (main_params\<lparr>p_Nr := Fin 2, p_Nu := Fin 4\<rparr>) new_model) \<and>
   length (positions (published generous (main_params\<lparr>p_Nr := Fin 2, p_Nu := Fin 4\<rparr>) new_model)) = 24 \<and>
   length (texcoords (published generous (main_params\<lparr>p_Nr := Fin 2, p_Nu := Fin 4\<rparr>) new_model)) = 16 \<and>
   map_option (length \<circ> elems)
     (indices (published generous (main_params\<lparr>p_Nr := Fin 2, p_Nu := Fin 4\<rparr>) new_model)) = Some 18 \<and>
   indexCount (published generous (main_params\<lparr>p_Nr := Fin 2, p_Nu := Fin 4\<rparr>) new_model) = 18"
proof -
  let ?p = "main_params\<lparr>p_Nr := Fin 2, p_Nu := Fin 4\<rparr>"
  have e: "eff_Nr ?p = 2" "eff_Nu ?p = 4"
    by (simp_all add: js_truncate_def)
  have b: "build generous ?p new_model = Inr (published generous ?p new_model)"
    by (rule build_generous) (unfold e, simp_all)
  from build_buffer_lengths [of generous ?p new_model "published generous ?p new_model"] b
  have "length (positions (published generous ?p new_model)) = 3 * eff_Nr ?p * eff_Nu ?p \<and>
      length (texcoords (published generous ?p new_model)) = 2 * eff_Nr ?p * eff_Nu ?p \<and>
      map_option (length \<circ> elems) (indices (published generous ?p new_model)) =
        Some (6 * (eff_Nr ?p - 1) * (eff_Nu ?p - 1)) \<and>
      indexCount (published generous ?p new_model) = 6 * (eff_Nr ?p - 1) * (eff_Nu ?p - 1)"
    by blast
  with b show ?thesis
    unfolding e by simp
qed


section \<open>The index sequence\<close>

text \<open>
  Claim C3, amended. For a mesh of at most \<open>2 ^ 32\<close> vertices the index buffer is
  exactly, in this order, the concatenation over the rows \<open>i = 0, \<dots>, Nr - 2\<close> and the
  columns \<open>j = 0, \<dots>, Nu - 2\<close> of the two triangles \<open>(a, b, c)\<close> and \<open>(b, d, c)\<close> with
  \<open>a = i * Nu + j\<close>, \<open>b = (i + 1) * Nu + j\<close>, \<open>c = i * Nu + (j + 1)\<close> and
  \<open>d = (i + 1) * Nu + (j + 1)\<close>.
\<close>

theorem index_buffer_quads:
  assumes "build env p this = Inr M" "eff_Nr p * eff_Nu p \<le> 2 ^ 32"
  shows "map_option elems (indices M) = Some (quads (eff_Nr p) (eff_Nu p)) \<and>
         quads (eff_Nr p) (eff_Nu p) =
           concat (map (\<lambda>i. concat (map (\<lambda>j.
             [i * eff_Nu p + j, (i + 1) * eff_Nu p + j, i * eff_Nu p + (j + 1),
              (i + 1) * eff_Nu p + j, (i + 1) * eff_Nu p + (j + 1), i * eff_Nu p + (j + 1)])
             [0..<eff_Nu p - 1])) [0..<eff_Nr p - 1])"
proof -
  have "indices M = Some (index_buffer p)"
    using build_InrD(2) [OF assms(1)] by simp
  then have "map_option elems (indices M) = Some (quads (eff_Nr p) (eff_Nu p))"
    using elems_index_buffer_small [OF assms(2)] by simp
  then show ?thesis using quads_unfold [of "eff_Nr p" "eff_Nu p"] by blast
qed

theorem index_buffer_quads_witness:
  "build generous (main_params\<lparr>p_Nr := Fin 2, p_Nu := Fin 4\<rparr>) new_model =
     Inr (published generous (main_params\<lparr>p_Nr := Fin 2, p_Nu := Fin 4\<rparr>) new_model) \<and>
   eff_Nr (main_params\<lparr>p_Nr := Fin 2, p_Nu := Fin 4\<rparr>) *
     eff_Nu (main_params\<lparr>p_Nr := Fin 2, p_Nu := Fin 4\<rparr>) \<le> 2 ^ 32 \<and>
   map_option elems (indices (published generous (main_params\<lparr>p_Nr := Fin 2, p_Nu := Fin 4\<rparr>) new_model)) =
     Some [0, 4, 1, 4, 5, 1, 1, 5, 2, 5, 6, 2, 2, 6, 3, 6, 7, 3]"
proof -
  let ?p = "main_params\<lparr>p_Nr := Fin 2, p_Nu := Fin 4\<rparr>"
  have e: "eff_Nr ?p = 2" "eff_Nu ?p = 4"
    by (simp_all add: js_truncate_def)
  have b: "build generous ?p new_model = Inr (published generous ?p new_model)"
    by (rule build_generous) (unfold e, simp_all)
  have s: "eff_Nr ?p * eff_Nu ?p \<le> 2 ^ 32"
    unfolding e by simp
  have "[0..<3] = [0, 1, Suc 1]" "[0..<Suc 0] = [0]"
    by (simp_all add: upt_rec)
  then have q: "quads 2 4 = [0, 4, 1, 4, 5, 1, 1, 5, 2, 5, 6, 2, 2, 6, 3, 6, 7, 3]"
    by (simp add: quads_def quad_row_def quad_def vid_def)
  from index_buffer_quads [OF b s] b s show ?thesis
    unfolding e q by blast
qed

text \<open>
  Without the bound the claim fails: with 65537 rows and 65537 columns, on an engine that
  provides every block, the vertex number \<open>4295098368\<close> of the last triangle does not
  fit the 32-bit elements of the index buffer and is stored modulo \<open>2 ^ 32\<close>.
\<close>

theorem index_buffer_wraps_counterexample:
  "build generous (main_params\<lparr>p_Nr := Fin 65537, p_Nu := Fin 65537\<rparr>) new_model =
     Inr (published generous (main_params\<lparr>p_Nr := Fin 65537, p_Nu := Fin 65537\<rparr>) new_model) \<and>
   eff_Nr (main_params\<lparr>p_Nr := Fin 65537, p_Nu := Fin 65537\<rparr>) = 65537 \<and>
   eff_Nu (main_params\<lparr>p_Nr := Fin 65537, p_Nu := Fin 65537\<rparr>) = 65537 \<and>
   map_option elems
     (indices (published generous (main_params\<lparr>p_Nr := Fin 65537, p_Nu := Fin 65537\<rparr>) new_model)) \<noteq>
     Some (quads 65537 65537)"
proof -
  let ?p = "main_params\<lparr>p_Nr := Fin 65537, p_Nu := Fin 65537\<rparr>"
  have e: "eff_Nr ?p = 65537" "eff_Nu ?p = 65537"
    by (simp_all add: js_truncate_def)
  have b: "build generous ?p new_model = Inr (published generous ?p new_model)"
    by (rule build_generous) (unfold e, simp_all)
  have el: "elems (index_buffer ?p) = map (\<lambda>v. v mod 2 ^ 32) (quads 65537 65537)"
    using index_buffer_eq [of ?p] unfolding e by simp
  have "(65535 + 1) * 65537 + (65535 + 1) \<in> set (quad 65537 65535 65535)"
    by (simp add: quad_def vid_def)
  moreover have "set (quad 65537 65535 65535) \<subseteq> set (quads 65537 65537)"
    by (rule quad_subset_quads) simp_all
  ultimately have mem: "(4295098368 :: nat) \<in> set (quads 65537 65537)"
    by auto
  have "elems (index_buffer ?p) \<noteq> quads 65537 65537"
  proof
    assume "elems (index_buffer ?p) = quads 65537 65537"
    then have "map (\<lambda>v. v mod 2 ^ 32) (quads 65537 65537) = map (\<lambda>v. v) (quads 65537 65537)"
      using el by simp
    then have "(4295098368 :: nat) mod 2 ^ 32 = 4295098368"
      using mem by (simp only: map_eq_conv)
    then show False by simp
  qed
  then show ?thesis using b e by simp
qed


section \<open>Index range\<close>

text \<open>
  Claim C4. Every value stored in the index buffer is below the vertex count
  \<open>Nr * Nu\<close>, so the three position reads that the accumulation of normals makes through
  it, at \<open>3 * v\<close>, \<open>3 * v + 1\<close> and \<open>3 * v + 2\<close>, are inside the position buffer.
\<close>

theorem indices_in_range:
  assumes "build env p this = Inr M"
  shows "\<exists>idx. indices M = Some idx \<and>
           (\<forall>k < length (elems idx).
              elems idx ! k < eff_Nr p * eff_Nu p \<and>
              elems idx ! k * 3 + 2 < length (positions M))"
proof -
  have M: "M = published env p this" using assms by (rule build_InrD)
  have "elems (index_buffer p) ! k * 3 + 2 < length (positions M)"
    if "k < length (elems (index_buffer p))" for k
    using index_buffer_nth_less [OF that] unfolding M
    by (simp add: length_positions_published)
  then show ?thesis
    using index_buffer_nth_less [of _ p] unfolding M by simp
qed

theorem indices_in_range_witness:
  "build generous (main_params\<lparr>p_Nr := Fin 2, p_Nu := Fin 4\<rparr>) new_model =
     Inr (published generous (main_params\<lparr>p_Nr := Fin 2, p_Nu := Fin 4\<rparr>) new_model) \<and>
   4 < length (elems (index_buffer (main_params\<lparr>p_Nr := Fin 2, p_Nu := Fin 4\<rparr>))) \<and>
   elems (index_buffer (main_params\<lparr>p_Nr := Fin 2, p_Nu := Fin 4\<rparr>)) ! 4 < 8 \<and>
   elems (index_buffer (main_params\<lparr>p_Nr := Fin 2, p_Nu := Fin 4\<rparr>)) ! 4 * 3 + 2 <
     length (positions (published generous (main_params\<lparr>p_Nr := Fin 2, p_Nu := Fin 4\<rparr>) new_model))"
proof -
  let ?p = "main_params\<lparr>p_Nr := Fin 2, p_Nu := Fin 4\<rparr>"
  have e: "eff_Nr ?p = 2" "eff_Nu ?p = 4"
    by (simp_all add: js_truncate_def)
  have b: "build generous ?p new_model = Inr (published generous ?p new_model)"
    by (rule build_generous) (unfold e, simp_all)
  have l: "4 < length (elems (index_buffer ?p))"
    unfolding length_index_buffer e by simp
  from indices_in_range [OF b] l
  have "elems (index_buffer ?p) ! 4 < eff_Nr ?p * eff_Nu ?p \<and>
        elems (index_buffer ?p) ! 4 * 3 + 2 < length (positions (published generous ?p new_model))"
    by simp
  with b l show ?thesis unfolding e by simp
qed


section \<open>Texture coordinates\<close>




section \<open>Index width\<close>

text \<open>
  Claim C8. The index buffer is a \<^verbatim>\<open>Uint32Array\<close> exactly when the vertex count
  \<open>Nr * Nu\<close> exceeds 65535, and a \<^verbatim>\<open>Uint16Array\<close> otherwise; \<^verbatim>\<open>upload\<close> then
  selects \<^verbatim>\<open>UNSIGNED_INT\<close> and \<^verbatim>\<open>UNSIGNED_SHORT\<close> accordingly, and the warning is
  written exactly when the buffer is wide and the extension is missing. The witness builds
  with 65536 vertices (wide) and with 65535 vertices (narrow).
\<close>

theorem index_width:
  assumes "build env p this = Inr M"
  shows "(is_Uint32Array (indices M) \<longleftrightarrow> 65535 < eff_Nr p * eff_Nu p) \<and>
         (case indices M of
            Some (Uint32Array xs) \<Rightarrow> 65535 < eff_Nr p * eff_Nu p
          | Some (Uint16Array xs) \<Rightarrow> eff_Nr p * eff_Nu p \<le> 65535
          | None \<Rightarrow> False) \<and>
         indexType (fst (upload ext M)) =
           Some (if 65535 < eff_Nr p * eff_Nu p then UNSIGNED_INT else UNSIGNED_SHORT) \<and>
         snd (upload ext M) = (65535 < eff_Nr p * eff_Nu p \<and> \<not> ext)"
proof -
  have M: "indices M = Some (index_buffer p)"
    using build_InrD(2) [OF assms] by simp
  have w: "is_Uint32Array (indices M) \<longleftrightarrow> 65535 < eff_Nr p * eff_Nu p"
    unfolding M by (rule is_Uint32Array_index_buffer)
  have c: "case indices M of
            Some (Uint32Array xs) \<Rightarrow> 65535 < eff_Nr p * eff_Nu p
          | Some (Uint16Array xs) \<Rightarrow> eff_Nr p * eff_Nu p \<le> 65535
          | None \<Rightarrow> False"
    using w unfolding M by (cases "index_buffer p") simp_all
  have u: "indexType (fst (upload ext M)) =
           Some (if 65535 < eff_Nr p * eff_Nu p then UNSIGNED_INT else UNSIGNED_SHORT)"
    "snd (upload ext M) = (65535 < eff_Nr p * eff_Nu p \<and> \<not> ext)"
    using w by (simp_all add: upload_def)
  from w c u show ?thesis by blast
qed

theorem index_width_witness:
  "build generous (main_params\<lparr>p_Nr := Fin 256, p_Nu := Fin 256\<rparr>) new_model =
     Inr (published generous (main_params\<lparr>p_Nr := Fin 256, p_Nu := Fin 256\<rparr>) new_model) \<and>
   is_Uint32Array (indices (published generous (main_params\<lparr>p_Nr := Fin 256, p_Nu := Fin 256\<rparr>) new_model)) \<and>
   indexType (fst (upload False
     (published generous (main_params\<lparr>p_Nr := Fin 256, p_Nu := Fin 256\<rparr>) new_model))) = Some UNSIGNED_INT \<and>
   snd (upload False (published generous (main_params\<lparr>p_Nr := Fin 256, p_Nu := Fin 256\<rparr>) new_model)) \<and>
   build generous (main_params\<lparr>p_Nr := Fin 255, p_Nu := Fin 257\<rparr>) new_model =
     Inr (published generous (main_params\<lparr>p_Nr := Fin 255, p_Nu := Fin 257\<rparr>) new_model) \<and>
   \<not> is_Uint32Array (indices (published generous (main_params\<lparr>p_Nr := Fin 255, p_Nu := Fin 257\<rparr>) new_model)) \<and>
   indexType (fst (upload False
     (published generous (main_params\<lparr>p_Nr := Fin 255, p_Nu := Fin 257\<rparr>) new_model))) = Some UNSIGNED_SHORT \<and>
   \<not> snd (upload False (published generous (main_params\<lparr>p_Nr := Fin 255, p_Nu := Fin 257\<rparr>) new_model))"
proof -
  let ?p = "main_params\<lparr>p_Nr := Fin 256, p_Nu := Fin 256\<rparr>"
  let ?q = "main_params\<lparr>p_Nr := Fin 255, p_Nu := Fin 257\<rparr>"
  have ep: "eff_Nr ?p = 256" "eff_Nu ?p = 256" and eq: "eff_Nr ?q = 255" "eff_Nu ?q = 257"
    by (simp_all add: js_truncate_def)
  have bp: "build generous ?p new_model = Inr (published generous ?p new_model)"
    by (rule build_generous) (unfold ep, simp_all)
  have bq: "build generous ?q new_model = Inr (published generous ?q new_model)"
    by (rule build_generous) (unfold eq, simp_all)
  show ?thesis
    using index_width [OF bp, of False] index_width [OF bq, of False] bp bq
    unfolding ep eq by simp
qed


section \<open>Clamping\<close>

text \<open>
  Claim C9, amended. \<^verbatim>\<open>build\<close> converts each resolution with \<^verbatim>\<open>| 0\<close> and clamps it
  before the first allocation: a converted \<open>Nr\<close> below 2 builds exactly as \<open>Nr = 2\<close>
  does and a converted \<open>Nu\<close> below 3 exactly as \<open>Nu = 3\<close> does, and a converted value
  at or above the minimum is used as it is. The only failure of a build is the
  \<^verbatim>\<open>RangeError\<close> of an allocation, which is thrown exactly when one of the four blocks
  cannot be created. When both converted resolutions are below their minimums the build
  asks for blocks of 72, 72, 48 and 24 bytes and returns if the engine provides them.
  Every mesh that a build returns has at least 2 rows and 3 columns and buffers of that
  size.
\<close>

theorem resolution_clamped:
  "(ToInt32 (p_Nr p) < 2 \<longrightarrow>
      eff_Nr p = 2 \<and> build env p this = build env (p\<lparr>p_Nr := Fin 2\<rparr>) this) \<and>
   (2 \<le> ToInt32 (p_Nr p) \<longrightarrow> int (eff_Nr p) = ToInt32 (p_Nr p)) \<and>
   (ToInt32 (p_Nu p) < 3 \<longrightarrow>
      eff_Nu p = 3 \<and> build env p this = build env (p\<lparr>p_Nu := Fin 3\<rparr>) this) \<and>
   (3 \<le> ToInt32 (p_Nu p) \<longrightarrow> int (eff_Nu p) = ToInt32 (p_Nu p)) \<and>
   (build env p this = Inl RangeError \<or> build env p this = Inr (published env p this)) \<and>
   (build env p this = Inl RangeError \<longleftrightarrow> \<not> all_created env p) \<and>
   (ToInt32 (p_Nr p) < 2 \<and> ToInt32 (p_Nu p) < 3 \<and>
    can_alloc env 0 72 \<and> can_alloc env 1 72 \<and> can_alloc env 2 48 \<and> can_alloc env 3 24 \<longrightarrow>
      build env p this = Inr (published env p this)) \<and>
   (build env p this = Inr M \<longrightarrow>
      2 \<le> eff_Nr p \<and> 3 \<le> eff_Nu p \<and>
      length (positions M) = 3 * eff_Nr p * eff_Nu p \<and>
      length (texcoords M) = 2 * eff_Nr p * eff_Nu p \<and>
      indexCount M = 6 * (eff_Nr p - 1) * (eff_Nu p - 1))"
proof -
  have 1: "eff_Nr p = 2 \<and> build env p this = build env (p\<lparr>p_Nr := Fin 2\<rparr>) this"
    if "ToInt32 (p_Nr p) < 2"
  proof -
    have e: "eff_Nr p = 2" using that by (simp add: eff_Nr_def)
    have "build env (p\<lparr>p_Nr := Fin 2\<rparr>) this = build env (clamped (p\<lparr>p_Nr := Fin 2\<rparr>)) this"
      by (simp only: build_clamped)
    also have "\<dots> = build env p this"
      by (simp only: clamped_update_Nr [OF e] build_clamped)
    finally show ?thesis using e by simp
  qed
  have 2: "int (eff_Nr p) = ToInt32 (p_Nr p)" if "2 \<le> ToInt32 (p_Nr p)"
    using that by (simp add: eff_Nr_def)
  have 3: "eff_Nu p = 3 \<and> build env p this = build env (p\<lparr>p_Nu := Fin 3\<rparr>) this"
    if "ToInt32 (p_Nu p) < 3"
  proof -
    have e: "eff_Nu p = 3" using that by (simp add: eff_Nu_def)
    have "build env (p\<lparr>p_Nu := Fin 3\<rparr>) this = build env (clamped (p\<lparr>p_Nu := Fin 3\<rparr>)) this"
      by (simp only: build_clamped)
    also have "\<dots> = build env p this"
      by (simp only: clamped_update_Nu [OF e] build_clamped)
    finally show ?thesis using e by simp
  qed
  have 4: "int (eff_Nu p) = ToInt32 (p_Nu p)" if "3 \<le> ToInt32 (p_Nu p)"
    using that by (simp add: eff_Nu_def)
  have 5: "build env p this = Inl RangeError \<or> build env p this = Inr (published env p this)"
    by (simp add: build_eq)
  have 6: "build env p this = Inl RangeError \<longleftrightarrow> \<not> all_created env p"
    by (simp add: build_eq)
  have 7: "build env p this = Inr (published env p this)"
    if "ToInt32 (p_Nr p) < 2" "ToInt32 (p_Nu p) < 3"
      "can_alloc env 0 72" "can_alloc env 1 72" "can_alloc env 2 48" "can_alloc env 3 24"
  proof -
    have "eff_Nr p = 2" "eff_Nu p = 3"
      using that by (simp_all add: eff_Nr_def eff_Nu_def)
    then have "all_created env p"
      using that by (simp add: all_created_minimum)
    then show ?thesis by (simp add: build_eq)
  qed
  have 8: "2 \<le> eff_Nr p \<and> 3 \<le> eff_Nu p \<and>
      length (positions M) = 3 * eff_Nr p * eff_Nu p \<and>
      length (texcoords M) = 2 * eff_Nr p * eff_Nu p \<and>
      indexCount M = 6 * (eff_Nr p - 1) * (eff_Nu p - 1)" if "build env p this = Inr M"
  proof -
    have M: "M = published env p this" using that by (rule build_InrD)
    show ?thesis
      unfolding M published_def using eff_Nr_ge [of p] eff_Nu_ge [of p]
      by (simp add: pos_vertex_buffers uv_vertex_buffers length_index_buffer mult.commute mult.left_commute)
  qed
  from 1 2 3 4 5 6 7 8 show ?thesis by blast
qed

theorem resolution_clamped_witness:
  "ToInt32 (p_Nr (main_params\<lparr>p_Nr := Fin 1, p_Nu := Fin (- 5)\<rparr>)) < 2 \<and>
   ToInt32 (p_Nu (main_params\<lparr>p_Nr := Fin 1, p_Nu := Fin (- 5)\<rparr>)) < 3 \<and>
   can_alloc generous 0 72 \<and> can_alloc generous 1 72 \<and>
   can_alloc generous 2 48 \<and> can_alloc generous 3 24 \<and>
   eff_Nr (main_params\<lparr>p_Nr := Fin 1, p_Nu := Fin (- 5)\<rparr>) = 2 \<and>
   eff_Nu (main_params\<lparr>p_Nr := Fin 1, p_Nu := Fin (- 5)\<rparr>) = 3 \<and>
   build generous (main_params\<lparr>p_Nr := Fin 1, p_Nu := Fin (- 5)\<rparr>) new_model =
     Inr (published generous (main_params\<lparr>p_Nr := Fin 1, p_Nu := Fin (- 5)\<rparr>) new_model) \<and>
   length (positions
     (published generous (main_params\<lparr>p_Nr := Fin 1, p_Nu := Fin (- 5)\<rparr>) new_model)) = 18 \<and>
   2 \<le> ToInt32 (p_Nr (main_params\<lparr>p_Nr := Fin 5, p_Nu := Fin 7\<rparr>)) \<and>
   3 \<le> ToInt32 (p_Nu (main_params\<lparr>p_Nr := Fin 5, p_Nu := Fin 7\<rparr>)) \<and>
   eff_Nr (main_params\<lparr>p_Nr := Fin 5, p_Nu := Fin 7\<rparr>) = 5 \<and>
   eff_Nu (main_params\<lparr>p_Nr := Fin 5, p_Nu := Fin 7\<rparr>) = 7"
proof -
  let ?p = "main_params\<lparr>p_Nr := Fin 1, p_Nu := Fin (- 5)\<rparr>"
  let ?q = "main_params\<lparr>p_Nr := Fin 5, p_Nu := Fin 7\<rparr>"
  have tp: "ToInt32 (p_Nr ?p) = 1" "ToInt32 (p_Nu ?p) = - 5"
    and tq: "ToInt32 (p_Nr ?q) = 5" "ToInt32 (p_Nu ?q) = 7"
    by (simp_all add: js_truncate_def)
  have hp: "ToInt32 (p_Nr ?p) < 2" "ToInt32 (p_Nu ?p) < 3"
    and hq: "2 \<le> ToInt32 (p_Nr ?q)" "3 \<le> ToInt32 (p_Nu ?q)"
    unfolding tp tq by simp_all
  have g: "can_alloc generous 0 72" "can_alloc generous 1 72"
    "can_alloc generous 2 48" "can_alloc generous 3 24"
    by (simp_all add: generous_def)
  note rp = resolution_clamped [of ?p generous new_model "published generous ?p new_model"]
  note rq = resolution_clamped [of ?q generous new_model "published generous ?q new_model"]
  from rp hp have ep: "eff_Nr ?p = 2" "eff_Nu ?p = 3" by blast+
  from rp hp g have b: "build generous ?p new_model = Inr (published generous ?p new_model)"
    by blast
  with rp have "length (positions (published generous ?p new_model)) = 3 * eff_Nr ?p * eff_Nu ?p"
    by blast
  then have l: "length (positions (published generous ?p new_model)) = 18"
    unfolding ep by simp
  from rq hq have i: "int (eff_Nr ?q) = ToInt32 (p_Nr ?q)" "int (eff_Nu ?q) = ToInt32 (p_Nu ?q)"
    by blast+
  have eq: "eff_Nr ?q = 5" "eff_Nu ?q = 7"
    using i [unfolded tq] by linarith+
  from hp hq g ep b l eq show ?thesis by blast
qed

text \<open>
  The claim as stated says that no resolution makes the build fail. The resolution
  \<open>- 2147483649\<close> is below both minimums, but \<^verbatim>\<open>| 0\<close> wraps it to \<open>2147483647\<close>: the
  position buffer would need more than \<open>2 ^ 53 - 1\<close> bytes and the build throws a
  \<^verbatim>\<open>RangeError\<close>, even on an engine that provides every block.
\<close>

theorem resolution_overflow_counterexample:
  "(- 2147483649 :: real) < 2 \<and>
   eff_Nr (main_params\<lparr>p_Nr := Fin (- 2147483649), p_Nu := Fin (- 2147483649)\<rparr>) = 2147483647 \<and>
   eff_Nu (main_params\<lparr>p_Nr := Fin (- 2147483649), p_Nu := Fin (- 2147483649)\<rparr>) = 2147483647 \<and>
   build generous (main_params\<lparr>p_Nr := Fin (- 2147483649), p_Nu := Fin (- 2147483649)\<rparr>)
     new_model = Inl RangeError"
proof -
  let ?p = "main_params\<lparr>p_Nr := Fin (- 2147483649), p_Nu := Fin (- 2147483649)\<rparr>"
  have e: "eff_Nr ?p = 2147483647" "eff_Nu ?p = 2147483647"
    by (simp_all add: js_truncate_def)
  have "\<not> all_created generous ?p"
    unfolding all_created_def e can_create_def by simp
  then have "build generous ?p new_model = Inl RangeError"
    by (simp add: build_eq)
  with e show ?thesis by simp
qed

section \<open>The resolution conversion\<close>

text \<open>
  Claim C10, amended. \<^verbatim>\<open>build\<close> accepts any number as a resolution: it is converted
  by \<^verbatim>\<open>| 0\<close> and then clamped to the minimum. The conversion maps \<^verbatim>\<open>NaN\<close> and the
  infinities to 0, truncates a finite value towards zero and wraps the result modulo
  \<open>2 ^ 32\<close> into the signed 32-bit range. So \<open>Nr = 2.9\<close> builds with 2 rows, and so
  do \<^verbatim>\<open>NaN\<close> and every value above \<open>- 2 ^ 31 - 1\<close> and below 3, the negative ones
  among them. (A negative value at or below \<open>- 2 ^ 31 - 1\<close> wraps and can give more
  rows; see the counterexample.)
\<close>

theorem resolution_conversion:
  fixes x :: real
  shows "eff_Nr p = nat (max 2 (ToInt32 (p_Nr p))) \<and>
         eff_Nu p = nat (max 3 (ToInt32 (p_Nu p))) \<and>
         ToInt32 NaN = 0 \<and> ToInt32 PInf = 0 \<and> ToInt32 NInf = 0 \<and>
         js_truncate x = (if x < 0 then \<lceil>x\<rceil> else \<lfloor>x\<rfloor>) \<and>
         ToInt32 (Fin x) mod 2 ^ 32 = js_truncate x mod 2 ^ 32 \<and>
         - (2 ^ 31) \<le> ToInt32 (Fin x) \<and> ToInt32 (Fin x) < 2 ^ 31 \<and>
         eff_Nr (p\<lparr>p_Nr := Fin 2.9\<rparr>) = 2 \<and>
         eff_Nr (p\<lparr>p_Nr := NaN\<rparr>) = 2 \<and>
         (- (2 ^ 31) - 1 < x \<and> x < 3 \<longrightarrow> eff_Nr (p\<lparr>p_Nr := Fin x\<rparr>) = 2)"
proof -
  have 1: "eff_Nr p = nat (max 2 (ToInt32 (p_Nr p)))" by (simp only: eff_Nr_def)
  have 2: "eff_Nu p = nat (max 3 (ToInt32 (p_Nu p)))" by (simp only: eff_Nu_def)
  have 3: "ToInt32 NaN = 0" "ToInt32 PInf = 0" "ToInt32 NInf = 0" by simp_all
  have 4: "js_truncate x = (if x < 0 then \<lceil>x\<rceil> else \<lfloor>x\<rfloor>)"
    by (simp add: js_truncate_def ceiling_def)
  have 5: "ToInt32 (Fin x) mod 2 ^ 32 = js_truncate x mod 2 ^ 32"
    by (simp add: Let_def)
  have 6: "- (2 ^ 31) \<le> ToInt32 (Fin x)" "ToInt32 (Fin x) < 2 ^ 31"
    using ToInt32_range [of "Fin x"] by blast+
  have 7: "eff_Nr (p\<lparr>p_Nr := Fin 2.9\<rparr>) = 2"
    by (rule eff_Nr_small [of _ "2.9"]) simp_all
  have 8: "eff_Nr (p\<lparr>p_Nr := NaN\<rparr>) = 2"
    by (simp add: eff_Nr_def)
  have 9: "- (2 ^ 31) - 1 < x \<and> x < 3 \<longrightarrow> eff_Nr (p\<lparr>p_Nr := Fin x\<rparr>) = 2"
    using eff_Nr_small [of "p\<lparr>p_Nr := Fin x\<rparr>" x] by simp
  from 1 2 3 4 5 6 7 8 9 show ?thesis by blast
qed

theorem resolution_conversion_witness:
  "- (2 ^ 31) - 1 < (- 7 :: real) \<and> (- 7 :: real) < 3 \<and>
   eff_Nr (main_params\<lparr>p_Nr := Fin (- 7)\<rparr>) = 2"
proof -
  have h: "- (2 ^ 31) - 1 < (- 7 :: real) \<and> (- 7 :: real) < 3" by simp
  with resolution_conversion [of main_params "- 7"]
  have "eff_Nr (main_params\<lparr>p_Nr := Fin (- 7)\<rparr>) = 2" by blast
  with h show ?thesis by blast
qed

text \<open>
  The claim as stated says that every negative resolution builds with 2 rows. The negative
  value \<open>- 4294967291\<close> wraps to 5 and builds with 5 rows.
\<close>

theorem negative_resolution_counterexample:
  "(- 4294967291 :: real) < 0 \<and> eff_Nr (main_params\<lparr>p_Nr := Fin (- 4294967291)\<rparr>) = 5 \<and>
   eff_Nr (main_params\<lparr>p_Nr := Fin (- 4294967291)\<rparr>) \<noteq> 2"
  by (simp add: eff_Nr_def js_truncate_def)



end
